theory Spec2Isabelle
  imports Main "HOL-Library.Word" "HOL-Library.Sublist"
begin

section \<open>Data model\<close>

text \<open>
  The raw file is an immutable byte buffer. A Python \<open>str\<close> is a sequence of Unicode
  code points, so it is modelled as a list of naturals; \<open>lit\<close> turns an ASCII literal
  into such a sequence. Every exception the parsers can raise is a value of \<open>error\<close>.
\<close>

type_synonym byte = "8 word"

type_synonym pystr = "nat list"

datatype error = StructError | IndexError | ZeroDivisionError | UnicodeDecodeError

definition lit :: "string \<Rightarrow> pystr" where
  "lit s = map of_char s"

text \<open>\<open>str(n)\<close> for a non-negative integer: its decimal digits.\<close>

function py_str :: "nat \<Rightarrow> pystr" where
  "py_str n = (if n < 10 then [48 + n] else py_str (n div 10) @ [48 + n mod 10])"
  by pat_completeness auto
termination
  by (relation "measure (\<lambda>n. n)") auto

declare py_str.simps [simp del]

text \<open>
  \<open>xs[i]\<close> on a Python list: a negative index counts from the end, and an index
  outside the list raises \<open>IndexError\<close>.
\<close>

definition py_getitem :: "'a list \<Rightarrow> int \<Rightarrow> error + 'a" where
  "py_getitem xs i =
     (if 0 \<le> i \<and> i < int (length xs) then Inr (xs ! nat i)
      else if i < 0 \<and> - int (length xs) \<le> i then Inr (xs ! nat (int (length xs) + i))
      else Inl IndexError)"

section \<open>Fixed-width reads (\<open>struct.unpack_from\<close>)\<close>

text \<open>
  \<open>struct.unpack_from(fmt, data, offset)\<close> raises \<open>struct.error\<close> when fewer bytes than
  the format needs remain at \<open>offset\<close>; all offsets the parsers compute are sums of
  unsigned values, hence naturals.
\<close>

definition le_uint16 :: "byte list \<Rightarrow> nat \<Rightarrow> nat" where
  "le_uint16 d off = unat (d ! off) + 256 * unat (d ! (off + 1))"

definition le_uint32 :: "byte list \<Rightarrow> nat \<Rightarrow> nat" where
  "le_uint32 d off =
     unat (d ! off)
     + 256 * (unat (d ! (off + 1)) + 256 * (unat (d ! (off + 2)) + 256 * unat (d ! (off + 3))))"

definition read_uint8 :: "byte list \<Rightarrow> nat \<Rightarrow> error + nat" where
  "read_uint8 d off =
     (if off + 1 > length d then Inl StructError else Inr (unat (d ! off)))"

definition read_uint16 :: "byte list \<Rightarrow> nat \<Rightarrow> error + nat" where
  "read_uint16 d off =
     (if off + 2 > length d then Inl StructError
      else Inr (le_uint16 d off))"

definition read_uint32 :: "byte list \<Rightarrow> nat \<Rightarrow> error + nat" where
  "read_uint32 d off =
     (if off + 4 > length d then Inl StructError
      else Inr (le_uint32 d off))"

definition extract_channel_count :: "byte list \<Rightarrow> error + nat" where
  "extract_channel_count d =
     (case read_uint8 d 0x134 of Inl e \<Rightarrow> Inl e | Inr v \<Rightarrow> Inr (v div 4))"

section \<open>Data record decoder (\<open>X431Parser._extract_data_rows\<close>)\<close>

text \<open>
  The inner loop over the cells of one row. The state is the row built so far and the
  read offset; \<open>k\<close> is the number of cells still to produce. When fewer than two bytes
  remain the cell is \<open>"0"\<close> and the offset is left where it is.
\<close>

fun row_cells :: "byte list \<Rightarrow> pystr list \<Rightarrow> nat \<Rightarrow> pystr list \<times> nat
                  \<Rightarrow> error + (pystr list \<times> nat)" where
  "row_cells d pv 0 st = Inr st"
| "row_cells d pv (Suc k) (row, off) =
     (if off + 2 > length d then row_cells d pv k (row @ [lit ''0''], off)
      else case read_uint16 d off of
             Inl e \<Rightarrow> Inl e
           | Inr v \<Rightarrow>
               (let index = int v - 9 in
                if 0 \<le> index \<and> index < int (length pv)
                then (case py_getitem pv index of
                        Inl e \<Rightarrow> Inl e
                      | Inr s \<Rightarrow> row_cells d pv k (row @ [s], off + 4))
                else row_cells d pv k (row @ [lit ''0''], off + 4)))"

text \<open>The outer loop over \<open>row_num\<close>; the state is the rows built so far and the offset.\<close>

fun rows_loop :: "byte list \<Rightarrow> pystr list \<Rightarrow> nat \<Rightarrow> nat list \<Rightarrow> pystr list list \<times> nat
                  \<Rightarrow> error + (pystr list list \<times> nat)" where
  "rows_loop d pv n [] st = Inr st"
| "rows_loop d pv n (row_num # rest) (rows, off) =
     (case row_cells d pv n ([py_str (row_num + 1)], off) of
        Inl e \<Rightarrow> Inl e
      | Inr (row, off') \<Rightarrow> rows_loop d pv n rest (rows @ [row], off'))"

definition extract_data_rows :: "byte list \<Rightarrow> nat \<Rightarrow> pystr list \<Rightarrow> error + pystr list list" where
  "extract_data_rows d column_count pv =
     (case read_uint16 d 0x11c of
        Inl e \<Rightarrow> Inl e
      | Inr var16 \<Rightarrow>
          (case read_uint32 d (var16 + 8) of
             Inl e \<Rightarrow> Inl e
           | Inr records_count \<Rightarrow>
               if column_count = 0 then Inl ZeroDivisionError
               else (case rows_loop d pv column_count
                            [0 ..< (records_count div 4) div column_count] ([], var16 + 8 + 8) of
                       Inl e \<Rightarrow> Inl e
                     | Inr (rows, off) \<Rightarrow> Inr rows)))"


section \<open>Decoding text (\<open>bytes.decode('utf-8', errors=...)\<close>)\<close>

text \<open>
  The decoder of the Python runtime, which the parsers call on every string payload.
  \<open>utf8_next\<close> looks at the head of the input and returns either the code point of a
  well-formed sequence or \<open>None\<close> for a malformed one, together with the number of bytes
  it covers: one byte for an invalid start byte, the bytes before the offending one for
  an invalid continuation byte, and all the remaining bytes for a sequence cut short by
  the end of the data.
\<close>

definition is_continuation :: "nat \<Rightarrow> bool" where
  "is_continuation b = (128 \<le> b \<and> b < 192)"

fun utf8_next :: "nat list \<Rightarrow> nat option \<times> nat" where
  "utf8_next [] = (None, 1)"
| "utf8_next (ch # rest) =
     (if ch < 0x80 then (Some ch, 1)
      else if ch < 0xE0 then
        (if ch < 0xC2 then (None, 1)
         else case rest of
                [] \<Rightarrow> (None, 1)
              | ch2 # _ \<Rightarrow>
                  if \<not> is_continuation ch2 then (None, 1)
                  else (Some ((ch - 0xC0) * 64 + (ch2 - 0x80)), 2))
      else if ch < 0xF0 then
        (case rest of
           [] \<Rightarrow> (None, 1)
         | [ch2] \<Rightarrow>
             if \<not> is_continuation ch2 \<or> (if ch2 < 0xA0 then ch = 0xE0 else ch = 0xED)
             then (None, 1) else (None, 2)
         | ch2 # ch3 # _ \<Rightarrow>
             if \<not> is_continuation ch2 then (None, 1)
             else if ch = 0xE0 \<and> ch2 < 0xA0 then (None, 1)
             else if ch = 0xED \<and> ch2 \<ge> 0xA0 then (None, 1)
             else if \<not> is_continuation ch3 then (None, 2)
             else (Some ((ch - 0xE0) * 4096 + (ch2 - 0x80) * 64 + (ch3 - 0x80)), 3))
      else if ch < 0xF5 then
        (case rest of
           [] \<Rightarrow> (None, 1)
         | [ch2] \<Rightarrow>
             if \<not> is_continuation ch2 \<or> (if ch2 < 0x90 then ch = 0xF0 else ch = 0xF4)
             then (None, 1) else (None, 2)
         | [ch2, ch3] \<Rightarrow>
             if \<not> is_continuation ch2 \<or> (if ch2 < 0x90 then ch = 0xF0 else ch = 0xF4)
             then (None, 1)
             else if \<not> is_continuation ch3 then (None, 2) else (None, 3)
         | ch2 # ch3 # ch4 # _ \<Rightarrow>
             if \<not> is_continuation ch2 then (None, 1)
             else if ch = 0xF0 \<and> ch2 < 0x90 then (None, 1)
             else if ch = 0xF4 \<and> ch2 \<ge> 0x90 then (None, 1)
             else if \<not> is_continuation ch3 then (None, 2)
             else if \<not> is_continuation ch4 then (None, 3)
             else (Some ((ch - 0xF0) * 262144 + (ch2 - 0x80) * 4096
                         + (ch3 - 0x80) * 64 + (ch4 - 0x80)), 4))
      else (None, 1))"

text \<open>
  The input cut into items: \<open>Some c\<close> for a decoded code point, \<open>None\<close> for a malformed
  stretch. Decoding resumes right after the bytes an item covers.
\<close>

fun utf8_items :: "nat list \<Rightarrow> nat option list" where
  "utf8_items [] = []"
| "utf8_items (b # bs) =
     (case utf8_next (b # bs) of (r, n) \<Rightarrow> r # utf8_items (drop (n - 1) bs))"

text \<open>
  The three error handlers: \<open>strict\<close> raises on the first malformed stretch, \<open>ignore\<close>
  drops it, \<open>replace\<close> puts U+FFFD in its place.
\<close>

datatype errors_mode = Strict | Ignore | Replace

definition decode_utf8 :: "errors_mode \<Rightarrow> byte list \<Rightarrow> error + pystr" where
  "decode_utf8 mode bs =
     (let items = utf8_items (map unat bs) in
      case mode of
        Strict \<Rightarrow> if None \<in> set items then Inl UnicodeDecodeError else Inr (map the items)
      | Ignore \<Rightarrow> Inr (concat (map (\<lambda>it. case it of None \<Rightarrow> [] | Some c \<Rightarrow> [c]) items))
      | Replace \<Rightarrow> Inr (map (\<lambda>it. case it of None \<Rightarrow> 0xFFFD | Some c \<Rightarrow> c) items))"

section \<open>String table builder (\<open>X431Parser._extract_point_values\<close>)\<close>

text \<open>The loop that skips the eight length-prefixed header sections.\<close>

fun skip_sections :: "byte list \<Rightarrow> nat \<Rightarrow> nat \<Rightarrow> error + nat" where
  "skip_sections d 0 off = Inr off"
| "skip_sections d (Suc k) off =
     (case read_uint16 d off of
        Inl e \<Rightarrow> Inl e
      | Inr var16 \<Rightarrow> skip_sections d k (off + var16))"

text \<open>
  The \<open>while\<close> loop reading the point values; \<open>acc\<close> is \<open>point_values\<close>. Both \<open>break\<close>s
  and the loop condition end it with the table built so far. Should decoding raise, the
  \<open>except\<close> clause appends the empty string.
\<close>

function point_values_loop :: "byte list \<Rightarrow> nat \<Rightarrow> pystr list \<Rightarrow> error + pystr list" where
  "point_values_loop d off acc =
     (if off < length d then
        (if off + 2 > length d then Inr acc
         else case read_uint16 d off of
                Inl e \<Rightarrow> Inl e
              | Inr var16 \<Rightarrow>
                  if var16 < 3 \<or> (off + 2) + var16 - 2 > length d then Inr acc
                  else point_values_loop d ((off + 2) + (var16 - 2))
                         (acc @ [case decode_utf8 Ignore (take (var16 - 3) (drop (off + 2) d)) of
                                   Inl e \<Rightarrow> []
                                 | Inr v \<Rightarrow> v]))
      else Inr acc)"
  by pat_completeness auto
termination
  by (relation "measure (\<lambda>(d, off, acc). length d - off)") auto

declare point_values_loop.simps [simp del]

definition extract_point_values :: "byte list \<Rightarrow> error + pystr list" where
  "extract_point_values d =
     (case read_uint32 d 0x0c of
        Inl e \<Rightarrow> Inl e
      | Inr var32 \<Rightarrow>
          (case skip_sections d 8 (0x0c + (4 + var32)) of
             Inl e \<Rightarrow> Inl e
           | Inr off \<Rightarrow> point_values_loop d off []))"


section \<open>Column header resolver, verbose (\<open>X431Parser._extract_column_names\<close>)\<close>

text \<open>
  First pass: one primary name per channel \<open>i\<close>. The guard is the source's
  \<open>index != 0 and (index - 0x09) < len(self.point_values)\<close>; the lookup that follows is
  Python list indexing.
\<close>

fun first_pass :: "byte list \<Rightarrow> pystr list \<Rightarrow> nat list \<Rightarrow> pystr list \<times> nat
                   \<Rightarrow> error + (pystr list \<times> nat)" where
  "first_pass d pv [] st = Inr st"
| "first_pass d pv (i # rest) (column_names, off) =
     (case read_uint16 d off of
        Inl e \<Rightarrow> Inl e
      | Inr index \<Rightarrow>
          if index \<noteq> 0 \<and> int index - 9 < int (length pv)
          then (case py_getitem pv (int index - 9) of
                  Inl e \<Rightarrow> Inl e
                | Inr s \<Rightarrow>
                    first_pass d pv rest
                      (column_names @ [py_str (i + 1) @ lit ''. '' @ s], off + 4))
          else first_pass d pv rest
                 (column_names @ [py_str (i + 1) @ lit ''. Unknown''], off + 4))"

text \<open>Second pass: the unit is appended in place to \<open>column_names[i + 1]\<close>.\<close>

fun second_pass :: "byte list \<Rightarrow> pystr list \<Rightarrow> nat list \<Rightarrow> pystr list \<times> nat
                    \<Rightarrow> error + (pystr list \<times> nat)" where
  "second_pass d pv [] st = Inr st"
| "second_pass d pv (i # rest) (column_names, off) =
     (case read_uint16 d off of
        Inl e \<Rightarrow> Inl e
      | Inr index \<Rightarrow>
          if index \<noteq> 0 \<and> int index - 9 < int (length pv)
          then (case py_getitem column_names (int (i + 1)) of
                  Inl e \<Rightarrow> Inl e
                | Inr name \<Rightarrow>
                    (case py_getitem pv (int index - 9) of
                       Inl e \<Rightarrow> Inl e
                     | Inr s \<Rightarrow>
                         second_pass d pv rest
                           (column_names[i + 1 := name @ lit '' ('' @ s @ lit '')''], off + 4)))
          else second_pass d pv rest (column_names, off + 4))"

definition extract_column_names :: "byte list \<Rightarrow> nat \<Rightarrow> pystr list \<Rightarrow> error + pystr list" where
  "extract_column_names d column_count pv =
     (case first_pass d pv [0 ..< column_count] ([lit ''Num''], 0x138) of
        Inl e \<Rightarrow> Inl e
      | Inr (names1, off1) \<Rightarrow>
          (case second_pass d pv [0 ..< column_count] (names1, off1) of
             Inl e \<Rightarrow> Inl e
           | Inr (names2, off2) \<Rightarrow> Inr names2))"

section \<open>Parser (\<open>X431Parser.parse\<close>)\<close>

definition parse :: "byte list \<Rightarrow> error + (pystr list \<times> pystr list list)" where
  "parse d =
     (case extract_channel_count d of
        Inl e \<Rightarrow> Inl e
      | Inr column_count \<Rightarrow>
          (case extract_point_values d of
             Inl e \<Rightarrow> Inl e
           | Inr point_values \<Rightarrow>
               (case extract_column_names d column_count point_values of
                  Inl e \<Rightarrow> Inl e
                | Inr column_names \<Rightarrow>
                    (case extract_data_rows d column_count point_values of
                       Inl e \<Rightarrow> Inl e
                     | Inr data_rows \<Rightarrow> Inr (column_names, data_rows)))))"


section \<open>The clean parser (\<open>X431CleanParser\<close>)\<close>

text \<open>The class has its own copies of the read helpers and of the two decoders.\<close>

definition clean_read_uint8 :: "byte list \<Rightarrow> nat \<Rightarrow> error + nat" where
  "clean_read_uint8 d off =
     (if off + 1 > length d then Inl StructError else Inr (unat (d ! off)))"

definition clean_read_uint16 :: "byte list \<Rightarrow> nat \<Rightarrow> error + nat" where
  "clean_read_uint16 d off =
     (if off + 2 > length d then Inl StructError
      else Inr (le_uint16 d off))"

definition clean_read_uint32 :: "byte list \<Rightarrow> nat \<Rightarrow> error + nat" where
  "clean_read_uint32 d off =
     (if off + 4 > length d then Inl StructError
      else Inr (le_uint32 d off))"

definition clean_extract_channel_count :: "byte list \<Rightarrow> error + nat" where
  "clean_extract_channel_count d =
     (case clean_read_uint8 d 0x134 of Inl e \<Rightarrow> Inl e | Inr v \<Rightarrow> Inr (v div 4))"

fun clean_skip_sections :: "byte list \<Rightarrow> nat \<Rightarrow> nat \<Rightarrow> error + nat" where
  "clean_skip_sections d 0 off = Inr off"
| "clean_skip_sections d (Suc k) off =
     (case clean_read_uint16 d off of
        Inl e \<Rightarrow> Inl e
      | Inr var16 \<Rightarrow> clean_skip_sections d k (off + var16))"

function clean_point_values_loop :: "byte list \<Rightarrow> nat \<Rightarrow> pystr list \<Rightarrow> error + pystr list" where
  "clean_point_values_loop d off acc =
     (if off < length d then
        (if off + 2 > length d then Inr acc
         else case clean_read_uint16 d off of
                Inl e \<Rightarrow> Inl e
              | Inr var16 \<Rightarrow>
                  if var16 < 3 \<or> (off + 2) + var16 - 2 > length d then Inr acc
                  else clean_point_values_loop d ((off + 2) + (var16 - 2))
                         (acc @ [case decode_utf8 Ignore (take (var16 - 3) (drop (off + 2) d)) of
                                   Inl e \<Rightarrow> []
                                 | Inr v \<Rightarrow> v]))
      else Inr acc)"
  by pat_completeness auto
termination
  by (relation "measure (\<lambda>(d, off, acc). length d - off)") auto

declare clean_point_values_loop.simps [simp del]

definition clean_extract_point_values :: "byte list \<Rightarrow> error + pystr list" where
  "clean_extract_point_values d =
     (case clean_read_uint32 d 0x0c of
        Inl e \<Rightarrow> Inl e
      | Inr var32 \<Rightarrow>
          (case clean_skip_sections d 8 (0x0c + (4 + var32)) of
             Inl e \<Rightarrow> Inl e
           | Inr off \<Rightarrow> clean_point_values_loop d off []))"

subsection \<open>\<open>_clean_parameter_name\<close>\<close>

text \<open>
  \<open>str.strip()\<close> removes leading and trailing white space (the runtime tests code
  points below 128 against its ASCII table and the others against the Unicode
  white-space set), \<open>str.replace(old, new)\<close>
  replaces the non-overlapping occurrences of \<open>old\<close> from left to right. The
  replacement table is applied in the order the dictionary literal lists it.
\<close>

definition py_isspace :: "nat \<Rightarrow> bool" where
  "py_isspace c =
     (if c < 128 then (0x09 \<le> c \<and> c \<le> 0x0D) \<or> (0x1C \<le> c \<and> c \<le> 0x20)
      else c = 0x85 \<or> c = 0xA0 \<or> c = 0x1680 \<or> (0x2000 \<le> c \<and> c \<le> 0x200A)
           \<or> c = 0x2028 \<or> c = 0x2029 \<or> c = 0x202F \<or> c = 0x205F \<or> c = 0x3000)"

definition py_strip :: "pystr \<Rightarrow> pystr" where
  "py_strip s = rev (dropWhile py_isspace (rev (dropWhile py_isspace s)))"

fun py_replace :: "pystr \<Rightarrow> pystr \<Rightarrow> pystr \<Rightarrow> pystr" where
  "py_replace old new [] = (if old = [] then new else [])"
| "py_replace old new (c # cs) =
     (if old = [] then new @ c # py_replace old new cs
      else if prefix old (c # cs) then new @ py_replace old new (drop (length old - 1) cs)
      else c # py_replace old new cs)"

definition replacements :: "(pystr \<times> pystr) list" where
  "replacements =
     [(lit ''B1S1'', lit ''(Bank1 Sensor1)''),
      (lit ''B2S1'', lit ''(Bank2 Sensor1)''),
      (lit ''A/F'', lit ''Air/Fuel''),
      (lit ''A/C'', lit ''AC''),
      (lit ''Cat OT MF F/C'', lit ''Catalyst Misfire''),
      (lit ''#'', lit ''Count'')]"

definition clean_parameter_name :: "pystr \<Rightarrow> pystr" where
  "clean_parameter_name name =
     (if name = [] then lit ''Unknown''
      else fold (\<lambda>(old, new) nm. py_replace old new nm) replacements (py_strip name))"

subsection \<open>\<open>X431CleanParser._extract_column_names\<close>\<close>

fun clean_param_names :: "byte list \<Rightarrow> pystr list \<Rightarrow> nat list \<Rightarrow> pystr list \<times> nat
                          \<Rightarrow> error + (pystr list \<times> nat)" where
  "clean_param_names d pv [] st = Inr st"
| "clean_param_names d pv (i # rest) (param_names, off) =
     (case clean_read_uint16 d off of
        Inl e \<Rightarrow> Inl e
      | Inr index \<Rightarrow>
          if index \<noteq> 0 \<and> int index - 9 < int (length pv)
          then (case py_getitem pv (int index - 9) of
                  Inl e \<Rightarrow> Inl e
                | Inr s \<Rightarrow> clean_param_names d pv rest (param_names @ [s], off + 4))
          else clean_param_names d pv rest
                 (param_names @ [lit ''Channel_'' @ py_str (i + 1)], off + 4))"

fun clean_units :: "byte list \<Rightarrow> pystr list \<Rightarrow> nat list \<Rightarrow> pystr list \<times> nat
                    \<Rightarrow> error + (pystr list \<times> nat)" where
  "clean_units d pv [] st = Inr st"
| "clean_units d pv (i # rest) (units, off) =
     (case clean_read_uint16 d off of
        Inl e \<Rightarrow> Inl e
      | Inr index \<Rightarrow>
          if index \<noteq> 0 \<and> int index - 9 < int (length pv)
          then (case py_getitem pv (int index - 9) of
                  Inl e \<Rightarrow> Inl e
                | Inr s \<Rightarrow> clean_units d pv rest (units @ [s], off + 4))
          else clean_units d pv rest (units @ [[]], off + 4))"

definition clean_col_name :: "pystr \<times> pystr \<Rightarrow> pystr" where
  "clean_col_name pu =
     (case pu of (param, unit) \<Rightarrow>
        (let param_clean = clean_parameter_name param;
             unit_clean = clean_parameter_name unit
         in if unit_clean \<noteq> [] \<and> unit_clean \<noteq> param_clean \<and> unit_clean \<noteq> lit ''Unknown''
            then param_clean @ lit '' ['' @ unit_clean @ lit '']''
            else param_clean))"

definition clean_extract_column_names :: "byte list \<Rightarrow> nat \<Rightarrow> pystr list \<Rightarrow> error + pystr list" where
  "clean_extract_column_names d column_count pv =
     (case clean_param_names d pv [0 ..< column_count] ([], 0x138) of
        Inl e \<Rightarrow> Inl e
      | Inr (param_names, off1) \<Rightarrow>
          (case clean_units d pv [0 ..< column_count] ([], off1) of
             Inl e \<Rightarrow> Inl e
           | Inr (units, off2) \<Rightarrow>
               Inr ([lit ''Row''] @ map clean_col_name (zip param_names units))))"

subsection \<open>\<open>X431CleanParser._extract_data_rows\<close> and \<open>parse\<close>\<close>

fun clean_row_cells :: "byte list \<Rightarrow> pystr list \<Rightarrow> nat \<Rightarrow> pystr list \<times> nat
                        \<Rightarrow> error + (pystr list \<times> nat)" where
  "clean_row_cells d pv 0 st = Inr st"
| "clean_row_cells d pv (Suc k) (row, off) =
     (if off + 2 > length d then clean_row_cells d pv k (row @ [lit ''0''], off)
      else case clean_read_uint16 d off of
             Inl e \<Rightarrow> Inl e
           | Inr v \<Rightarrow>
               (let index = int v - 9 in
                if 0 \<le> index \<and> index < int (length pv)
                then (case py_getitem pv index of
                        Inl e \<Rightarrow> Inl e
                      | Inr s \<Rightarrow> clean_row_cells d pv k (row @ [s], off + 4))
                else clean_row_cells d pv k (row @ [lit ''0''], off + 4)))"

fun clean_rows_loop :: "byte list \<Rightarrow> pystr list \<Rightarrow> nat \<Rightarrow> nat list \<Rightarrow> pystr list list \<times> nat
                        \<Rightarrow> error + (pystr list list \<times> nat)" where
  "clean_rows_loop d pv n [] st = Inr st"
| "clean_rows_loop d pv n (row_num # rest) (rows, off) =
     (case clean_row_cells d pv n ([py_str (row_num + 1)], off) of
        Inl e \<Rightarrow> Inl e
      | Inr (row, off') \<Rightarrow> clean_rows_loop d pv n rest (rows @ [row], off'))"

definition clean_extract_data_rows :: "byte list \<Rightarrow> nat \<Rightarrow> pystr list \<Rightarrow> error + pystr list list" where
  "clean_extract_data_rows d column_count pv =
     (case clean_read_uint16 d 0x11c of
        Inl e \<Rightarrow> Inl e
      | Inr var16 \<Rightarrow>
          (case clean_read_uint32 d (var16 + 8) of
             Inl e \<Rightarrow> Inl e
           | Inr records_count \<Rightarrow>
               if column_count = 0 then Inl ZeroDivisionError
               else (case clean_rows_loop d pv column_count
                            [0 ..< (records_count div 4) div column_count] ([], var16 + 8 + 8) of
                       Inl e \<Rightarrow> Inl e
                     | Inr (rows, off) \<Rightarrow> Inr rows)))"

definition clean_parse :: "byte list \<Rightarrow> error + (pystr list \<times> pystr list list)" where
  "clean_parse d =
     (case clean_extract_channel_count d of
        Inl e \<Rightarrow> Inl e
      | Inr column_count \<Rightarrow>
          (case clean_extract_point_values d of
             Inl e \<Rightarrow> Inl e
           | Inr point_values \<Rightarrow>
               (case clean_extract_column_names d column_count point_values of
                  Inl e \<Rightarrow> Inl e
                | Inr column_names \<Rightarrow>
                    (case clean_extract_data_rows d column_count point_values of
                       Inl e \<Rightarrow> Inl e
                     | Inr data_rows \<Rightarrow> Inr (column_names, data_rows)))))"


section \<open>The specification's wording, as definitions\<close>

text \<open>
  The string table as the specification describes it. The preamble and the eight
  sections are skipped by advancing an offset; the table itself is described on the
  bytes that remain: read a 16-bit length \<open>L\<close>; stop when \<open>L < 3\<close> or fewer than \<open>L - 2\<close>
  bytes remain after the prefix; otherwise the next \<open>L - 3\<close> bytes are a payload and the
  following entry starts \<open>L - 2\<close> bytes after the prefix. \<open>spec_text\<close> turns a payload into
  the string that is appended; which error handler that decoding uses is a separate
  matter, and here it is the one the builder calls.
\<close>

definition spec_skip_section :: "byte list \<Rightarrow> error + nat \<Rightarrow> error + nat" where
  "spec_skip_section d r =
     (case r of
        Inl e \<Rightarrow> Inl e
      | Inr off \<Rightarrow> (case read_uint16 d off of Inl e \<Rightarrow> Inl e | Inr len \<Rightarrow> Inr (off + len)))"

fun spec_payloads :: "byte list \<Rightarrow> byte list list" where
  "spec_payloads (b0 # b1 # body) =
     (let L = unat b0 + 256 * unat b1
      in if L < 3 \<or> length body < L - 2 then []
         else take (L - 3) body # spec_payloads (drop (L - 2) body))"
| "spec_payloads _ = []"

definition spec_text :: "byte list \<Rightarrow> pystr" where
  "spec_text payload = (case decode_utf8 Ignore payload of Inl e \<Rightarrow> [] | Inr v \<Rightarrow> v)"

definition spec_point_values :: "byte list \<Rightarrow> error + pystr list" where
  "spec_point_values d =
     (case read_uint32 d 0x0c of
        Inl e \<Rightarrow> Inl e
      | Inr L0 \<Rightarrow>
          (case (spec_skip_section d ^^ 8) (Inr (0x0c + 4 + L0)) of
             Inl e \<Rightarrow> Inl e
           | Inr off \<Rightarrow> Inr (map spec_text (spec_payloads (drop off d)))))"

text \<open>
  The data section as the specification locates it: the pointer is the 16-bit value at
  0x11c plus 8, the record count is read at pointer + 8, and the cells begin 8 bytes
  past the record-count field.
\<close>

definition spec_extract_data_rows :: "byte list \<Rightarrow> nat \<Rightarrow> pystr list \<Rightarrow> error + pystr list list" where
  "spec_extract_data_rows d column_count pv =
     (case read_uint16 d 0x11c of
        Inl e \<Rightarrow> Inl e
      | Inr v \<Rightarrow>
          (let pointer = v + 8 in
           case read_uint32 d (pointer + 8) of
             Inl e \<Rightarrow> Inl e
           | Inr records_count \<Rightarrow>
               if column_count = 0 then Inl ZeroDivisionError
               else (case rows_loop d pv column_count
                            [0 ..< (records_count div 4) div column_count]
                            ([], (pointer + 8) + 8) of
                       Inl e \<Rightarrow> Inl e
                     | Inr (rows, off) \<Rightarrow> Inr rows)))"


section \<open>Closed form of the decoded rows\<close>

text \<open>
  \<open>cell d pv off\<close> is the cell decoded from offset \<open>off\<close>; \<open>next_off d off k\<close> is the
  offset after \<open>k\<close> cells have been attempted from \<open>off\<close>.
\<close>

definition cell :: "byte list \<Rightarrow> pystr list \<Rightarrow> nat \<Rightarrow> pystr" where
  "cell d pv off =
     (if off + 2 > length d then lit ''0''
      else let v = le_uint16 d off
           in if 9 \<le> v \<and> v - 9 < length pv then pv ! (v - 9) else lit ''0'')"

fun next_off :: "byte list \<Rightarrow> nat \<Rightarrow> nat \<Rightarrow> nat" where
  "next_off d off 0 = off"
| "next_off d off (Suc k) = (if off + 2 > length d then off else next_off d (off + 4) k)"

definition decoded_row :: "byte list \<Rightarrow> pystr list \<Rightarrow> nat \<Rightarrow> nat \<Rightarrow> nat \<Rightarrow> nat \<Rightarrow> pystr list" where
  "decoded_row d pv n off i row_num =
     py_str (row_num + 1) # map (\<lambda>j. cell d pv (off + 4 * (i * n + j))) [0 ..< n]"

section \<open>Closed form of the header slots\<close>

text \<open>
  Both header resolvers guard every lookup with the same test and read their slots at a
  stride of four bytes. \<open>resolve_slot\<close> is that guarded lookup at one offset: \<open>None\<close>
  when the guard fails, the looked-up string otherwise. \<open>resolve_slots\<close> resolves \<open>k\<close>
  consecutive slots and fails where the first of them fails.
\<close>

definition resolve_slot :: "byte list \<Rightarrow> pystr list \<Rightarrow> nat \<Rightarrow> error + pystr option" where
  "resolve_slot d pv off =
     (case read_uint16 d off of
        Inl e \<Rightarrow> Inl e
      | Inr index \<Rightarrow>
          if index \<noteq> 0 \<and> int index - 9 < int (length pv)
          then (case py_getitem pv (int index - 9) of Inl e \<Rightarrow> Inl e | Inr s \<Rightarrow> Inr (Some s))
          else Inr None)"

fun resolve_slots :: "byte list \<Rightarrow> pystr list \<Rightarrow> nat \<Rightarrow> nat \<Rightarrow> error + pystr option list" where
  "resolve_slots d pv off 0 = Inr []"
| "resolve_slots d pv off (Suc k) =
     (case resolve_slot d pv off of
        Inl e \<Rightarrow> Inl e
      | Inr r \<Rightarrow>
          (case resolve_slots d pv (off + 4) k of
             Inl e \<Rightarrow> Inl e
           | Inr rs \<Rightarrow> Inr (r # rs)))"

definition primary_header :: "nat \<Rightarrow> pystr option \<Rightarrow> pystr" where
  "primary_header i r =
     py_str (i + 1) @ lit ''. '' @ (case r of None \<Rightarrow> lit ''Unknown'' | Some s \<Rightarrow> s)"

definition unit_suffix :: "pystr option \<Rightarrow> pystr" where
  "unit_suffix r = (case r of None \<Rightarrow> [] | Some s \<Rightarrow> lit '' ('' @ s @ lit '')'')"

definition clean_param :: "nat \<Rightarrow> pystr option \<Rightarrow> pystr" where
  "clean_param i r = (case r of None \<Rightarrow> lit ''Channel_'' @ py_str (i + 1) | Some s \<Rightarrow> s)"

definition clean_unit :: "pystr option \<Rightarrow> pystr" where
  "clean_unit r = (case r of None \<Rightarrow> [] | Some s \<Rightarrow> s)"

text \<open>
  A header slot is regular when its two bytes lie in the buffer and the stored index is
  0 or at least 9, the index bias. The header \<open>verbose_name\<close> and the pair
  \<open>clean_name\<close> are what the resolvers make of the stored primary index \<open>i1\<close> and unit
  index \<open>i2\<close> of channel \<open>c\<close> (counted from 0) in such slots.
\<close>

definition regular_slot :: "byte list \<Rightarrow> nat \<Rightarrow> bool" where
  "regular_slot d off = (off + 2 \<le> length d \<and> (le_uint16 d off = 0 \<or> 9 \<le> le_uint16 d off))"

definition in_table :: "pystr list \<Rightarrow> nat \<Rightarrow> bool" where
  "in_table pv i = (9 \<le> i \<and> i < 9 + length pv)"

definition verbose_name :: "pystr list \<Rightarrow> nat \<Rightarrow> nat \<Rightarrow> nat \<Rightarrow> pystr" where
  "verbose_name pv c i1 i2 =
     py_str (c + 1) @ lit ''. ''
     @ (if in_table pv i1 then pv ! (i1 - 9) else lit ''Unknown'')
     @ (if in_table pv i2 then lit '' ('' @ pv ! (i2 - 9) @ lit '')'' else [])"

definition clean_name :: "pystr list \<Rightarrow> nat \<Rightarrow> nat \<Rightarrow> nat \<Rightarrow> pystr" where
  "clean_name pv c i1 i2 =
     (let p = clean_parameter_name
                (if in_table pv i1 then pv ! (i1 - 9) else lit ''Channel_'' @ py_str (c + 1));
          u = clean_parameter_name (if in_table pv i2 then pv ! (i2 - 9) else [])
      in if u \<noteq> [] \<and> u \<noteq> p \<and> u \<noteq> lit ''Unknown''
         then p @ lit '' ['' @ u @ lit '']'' else p)"


section \<open>Concrete files\<close>

text \<open>
  \<open>image_prefix\<close> is the start of a small well-formed file: twelve unused bytes, a
  preamble of length 0 at 0x0c, eight empty header sections, and from 0x20 the string
  table given as argument, closed by a sentinel length 0 and padded up to 0x11c.
  \<open>image_header\<close> adds the data-section pointer 0x140 at 0x11c, the channel byte at 0x134
  and the bytes that follow it from 0x135 on.
\<close>

definition entry :: "byte list \<Rightarrow> byte list" where
  "entry payload = [of_nat (length payload + 3), 0] @ payload @ [0]"

definition ascii :: "string \<Rightarrow> byte list" where
  "ascii s = map of_char s"

definition image_prefix :: "byte list \<Rightarrow> byte list" where
  "image_prefix table =
     (let start = replicate 12 0 @ [0, 0, 0, 0] @ concat (replicate 8 [2, 0]) @ table @ [0, 0]
      in start @ replicate (0x11c - length start) 0)"

definition image_header :: "byte list \<Rightarrow> byte \<Rightarrow> byte list" where
  "image_header table channel_byte =
     image_prefix table @ [0x40, 0x01] @ replicate 22 0 @ [channel_byte, 0, 0, 0]"

definition slot :: "byte \<Rightarrow> byte list" where
  "slot index = [index, 0, 0, 0]"

text \<open>
  Two channels named Speed and RPM with units km/h and rpm; a record count of 18, hence
  two rows; the buffer ends one byte into the last cell of the second row.
\<close>

definition demo_file :: "byte list" where
  "demo_file =
     image_header (entry (ascii ''Speed'') @ entry (ascii ''RPM'')
                  @ entry (ascii ''km/h'') @ entry (ascii ''rpm'')) 8
     @ slot 9 @ slot 10 @ slot 11 @ slot 12
     @ [18, 0, 0, 0] @ [0, 0, 0, 0]
     @ slot 9 @ slot 10 @ slot 11 @ [12]"

text \<open>
  A file with one channel, whose primary and unit slots hold the given stored indices,
  and with a record count of 0.
\<close>

definition one_channel_file :: "byte list \<Rightarrow> byte \<Rightarrow> byte \<Rightarrow> byte list" where
  "one_channel_file table index1 index2 =
     image_header table 4 @ slot index1 @ slot index2 @ replicate 8 0 @ [0, 0, 0, 0]"

definition demo_table :: "pystr list" where
  "demo_table = [lit ''Speed'', lit ''RPM'', lit ''km/h'', lit ''rpm'']"


section \<open>Properties of the data record decoder\<close>

lemma biased_index:
  "(0 \<le> int v - 9 \<and> int v - 9 < int n) = (9 \<le> v \<and> v - 9 < n)"
  by linarith

lemma getitem_in_range: "i < length xs \<Longrightarrow> py_getitem xs (int i) = Inr (xs ! i)"
  by (simp add: py_getitem_def)

lemma row_cells_step:
  assumes "\<not> length d < off + 2"
  shows "row_cells d pv (Suc k) (row, off) = row_cells d pv k (row @ [cell d pv off], off + 4)"
proof (cases "9 \<le> le_uint16 d off \<and> le_uint16 d off - 9 < length pv")
  case True
  then have a: "0 \<le> int (le_uint16 d off) - 9 \<and> int (le_uint16 d off) - 9 < int (length pv)"
    using biased_index [of "le_uint16 d off" "length pv"] by blast
  from True have b: "int (le_uint16 d off) - 9 = int (le_uint16 d off - 9)"
    by linarith
  from True have c: "py_getitem pv (int (le_uint16 d off) - 9) = Inr (pv ! (le_uint16 d off - 9))"
    unfolding b by (intro getitem_in_range) simp
  have "cell d pv off = pv ! (le_uint16 d off - 9)"
    using assms True by (simp add: cell_def Let_def)
  then show ?thesis
    using assms a c by (auto simp add: read_uint16_def Let_def simp del: of_nat_diff)
next
  case False
  then have a: "\<not> (0 \<le> int (le_uint16 d off) - 9 \<and> int (le_uint16 d off) - 9 < int (length pv))"
    using biased_index [of "le_uint16 d off" "length pv"] by blast
  have "cell d pv off = lit ''0''"
    using assms False by (auto simp add: cell_def Let_def)
  then show ?thesis
    using assms a by (auto simp add: read_uint16_def Let_def simp del: of_nat_diff)
qed

lemma cell_exhausted: "length d < off + 2 \<Longrightarrow> cell d pv off = lit ''0''"
  by (simp add: cell_def)

lemma next_off_exhausted: "length d < off + 2 \<Longrightarrow> next_off d off k = off"
  by (cases k) simp_all

lemma next_off_cases:
  "next_off d off k = off + 4 * k \<or> (length d < next_off d off k + 2 \<and> next_off d off k \<le> off + 4 * k)"
proof (induction k arbitrary: off)
  case 0
  show ?case by simp
next
  case (Suc k)
  show ?case
  proof (cases "length d < off + 2")
    case True
    then show ?thesis by simp
  next
    case False
    from Suc.IH [of "off + 4"] False show ?thesis by auto
  qed
qed

lemma next_off_add: "next_off d (next_off d off a) b = next_off d off (a + b)"
proof (induction a arbitrary: off)
  case 0
  show ?case by simp
next
  case (Suc a)
  show ?case
  proof (cases "length d < off + 2")
    case True
    then show ?thesis by (simp add: next_off_exhausted)
  next
    case False
    with Suc.IH [of "off + 4"] show ?thesis by simp
  qed
qed

lemma cell_next_off: "cell d pv (next_off d off a + 4 * j) = cell d pv (off + 4 * (a + j))"
proof -
  from next_off_cases [of d off a] show ?thesis
  proof
    assume "next_off d off a = off + 4 * a"
    then show ?thesis by (simp add: algebra_simps)
  next
    assume h: "length d < next_off d off a + 2 \<and> next_off d off a \<le> off + 4 * a"
    then have "cell d pv (next_off d off a + 4 * j) = lit ''0''"
      by (intro cell_exhausted) simp
    moreover from h have "cell d pv (off + 4 * (a + j)) = lit ''0''"
      by (intro cell_exhausted) simp
    ultimately show ?thesis by simp
  qed
qed

lemma row_cells_closed:
  "row_cells d pv k (row, off)
     = Inr (row @ map (\<lambda>j. cell d pv (off + 4 * j)) [0 ..< k], next_off d off k)"
proof (induction k arbitrary: row off)
  case 0
  show ?case by simp
next
  case (Suc k)
  have "map (\<lambda>j. cell d pv (off + 4 * j)) [0 ..< Suc k]
          = cell d pv off # map (\<lambda>j. cell d pv (off + 4 * Suc j)) [0 ..< k]"
    by (simp add: upt_conv_Cons map_Suc_upt [symmetric] del: upt_Suc)
  then have shift: "map (\<lambda>j. cell d pv (off + 4 * j)) [0 ..< Suc k]
                 = cell d pv off # map (\<lambda>j. cell d pv (off + 4 + 4 * j)) [0 ..< k]"
    by (simp add: add.assoc)
  show ?case
  proof (cases "length d < off + 2")
    case True
    have all0: "map (\<lambda>j. cell d pv (off + 4 + 4 * j)) [0 ..< k] = map (\<lambda>j. cell d pv (off + 4 * j)) [0 ..< k]"
      using True by (simp add: cell_exhausted)
    from True have "row_cells d pv (Suc k) (row, off) = row_cells d pv k (row @ [lit ''0''], off)"
      by simp
    also have "\<dots> = Inr ((row @ [lit ''0'']) @ map (\<lambda>j. cell d pv (off + 4 * j)) [0 ..< k], next_off d off k)"
      by (rule Suc.IH)
    finally show ?thesis
      using True unfolding shift all0 by (simp add: cell_exhausted next_off_exhausted)
  next
    case False
    have c: "row_cells d pv (Suc k) (row, off) = row_cells d pv k (row @ [cell d pv off], off + 4)"
      using False by (rule row_cells_step)
    show ?thesis
      unfolding c shift Suc.IH using False by simp
  qed
qed

lemma decoded_row_shift:
  "decoded_row d pv n (next_off d off n) i r = decoded_row d pv n off (Suc i) r"
proof -
  have "cell d pv (next_off d off n + 4 * (i * n + j)) = cell d pv (off + 4 * (Suc i * n + j))" for j
  proof -
    have "n + (i * n + j) = Suc i * n + j" by simp
    then show ?thesis by (simp only: cell_next_off)
  qed
  then show ?thesis by (simp only: decoded_row_def)
qed

lemma decoded_rows_Cons:
  "map (\<lambda>i. decoded_row d pv n off i ((r # rs) ! i)) [0 ..< length (r # rs)]
     = decoded_row d pv n off 0 r
       # map (\<lambda>i. decoded_row d pv n (next_off d off n) i (rs ! i)) [0 ..< length rs]"
proof -
  have "length (r # rs) = Suc (length rs)" by simp
  then have "map (\<lambda>i. decoded_row d pv n off i ((r # rs) ! i)) [0 ..< length (r # rs)]
     = decoded_row d pv n off 0 ((r # rs) ! 0)
       # map (\<lambda>i. decoded_row d pv n off (Suc i) ((r # rs) ! Suc i)) [0 ..< length rs]"
    by (simp only: map_upt_Suc)
  then show ?thesis by (simp only: nth_Cons_0 nth_Cons_Suc decoded_row_shift)
qed

lemma rows_loop_closed:
  "rows_loop d pv n rs (rows, off)
     = Inr (rows @ map (\<lambda>i. decoded_row d pv n off i (rs ! i)) [0 ..< length rs],
            next_off d off (length rs * n))"
proof (induction rs arbitrary: rows off)
  case Nil
  show ?case by simp
next
  case (Cons r rs)
  have first: "row_cells d pv n ([py_str (r + 1)], off) = Inr (decoded_row d pv n off 0 r, next_off d off n)"
    unfolding row_cells_closed decoded_row_def by simp
  have off: "next_off d (next_off d off n) (length rs * n) = next_off d off (length (r # rs) * n)"
    by (simp add: next_off_add)
  have "rows_loop d pv n (r # rs) (rows, off)
          = rows_loop d pv n rs (rows @ [decoded_row d pv n off 0 r], next_off d off n)"
    unfolding rows_loop.simps first by simp
  also have "\<dots> = Inr ((rows @ [decoded_row d pv n off 0 r])
                        @ map (\<lambda>i. decoded_row d pv n (next_off d off n) i (rs ! i)) [0 ..< length rs],
                      next_off d (next_off d off n) (length rs * n))"
    by (rule Cons.IH)
  finally show ?case
    unfolding decoded_rows_Cons off by simp
qed

lemma extract_data_rows_closed:
  assumes "read_uint16 d 0x11c = Inr v" and "read_uint32 d (v + 8) = Inr rc" and "0 < n"
  shows "extract_data_rows d n pv
           = Inr (map (\<lambda>r. decoded_row d pv n (v + 16) r r) [0 ..< (rc div 4) div n])"
proof -
  have "map (\<lambda>i. decoded_row d pv n (v + 16) i ([0 ..< (rc div 4) div n] ! i)) [0 ..< (rc div 4) div n]
          = map (\<lambda>r. decoded_row d pv n (v + 16) r r) [0 ..< (rc div 4) div n]"
    by simp
  then show ?thesis
    using assms by (simp add: extract_data_rows_def rows_loop_closed add.commute)
qed

section \<open>Properties of the verbose header resolver\<close>

lemma resolve_slots_length: "resolve_slots d pv off k = Inr rs \<Longrightarrow> length rs = k"
  by (induction k arbitrary: off rs) (auto split: sum.splits)

lemma resolve_slots_nth:
  "resolve_slots d pv off k = Inr rs \<Longrightarrow> j < k \<Longrightarrow> resolve_slot d pv (off + 4 * j) = Inr (rs ! j)"
proof (induction k arbitrary: off rs j)
  case 0
  then show ?case by simp
next
  case (Suc k)
  from Suc.prems(1) obtain r rs' where r: "resolve_slot d pv off = Inr r"
    and rs': "resolve_slots d pv (off + 4) k = Inr rs'" and rs: "rs = r # rs'"
    by (auto split: sum.splits)
  show ?case
  proof (cases j)
    case 0
    then show ?thesis using r rs by simp
  next
    case (Suc j')
    with Suc.prems(2) have "j' < k" by simp
    from Suc.IH [OF rs' this] show ?thesis using Suc rs by (simp add: add.assoc)
  qed
qed

lemma first_pass_step:
  "first_pass d pv (i # rest) (names, off) =
     (case resolve_slot d pv off of
        Inl e \<Rightarrow> Inl e
      | Inr r \<Rightarrow> first_pass d pv rest (names @ [primary_header i r], off + 4))"
proof -
  have "lit ''. Unknown'' = lit ''. '' @ lit ''Unknown''" by (simp add: lit_def)
  then show ?thesis
    by (simp add: resolve_slot_def primary_header_def split: sum.splits)
qed

lemma first_pass_closed:
  "first_pass d pv ixs (names, off) =
     (case resolve_slots d pv off (length ixs) of
        Inl e \<Rightarrow> Inl e
      | Inr rs \<Rightarrow> Inr (names @ map2 primary_header ixs rs, off + 4 * length ixs))"
proof (induction ixs arbitrary: names off)
  case Nil
  show ?case by simp
next
  case (Cons i rest)
  show ?case
    unfolding first_pass_step Cons.IH
    by (simp split: sum.splits)
qed

lemma second_pass_step:
  assumes "i + 1 < length names"
  shows "second_pass d pv (i # rest) (names, off) =
     (case resolve_slot d pv off of
        Inl e \<Rightarrow> Inl e
      | Inr r \<Rightarrow> second_pass d pv rest (names[i + 1 := names ! (i + 1) @ unit_suffix r], off + 4))"
proof -
  have "py_getitem names (int (i + 1)) = Inr (names ! (i + 1))"
    using assms by (intro getitem_in_range)
  then show ?thesis
    by (simp add: resolve_slot_def unit_suffix_def split: sum.splits)
qed

lemma second_pass_closed:
  assumes "distinct ixs" and "\<forall>i \<in> set ixs. i + 1 < length names"
  shows "second_pass d pv ixs (names, off) =
     (case resolve_slots d pv off (length ixs) of
        Inl e \<Rightarrow> Inl e
      | Inr rs \<Rightarrow>
          Inr (fold (\<lambda>(i, r) nm. nm[i + 1 := nm ! (i + 1) @ unit_suffix r]) (zip ixs rs) names,
               off + 4 * length ixs))"
  using assms
proof (induction ixs arbitrary: names off)
  case Nil
  show ?case by simp
next
  case (Cons i rest)
  have a: "i + 1 < length names" using Cons.prems by simp
  have b: "distinct rest" using Cons.prems by simp
  have c: "\<forall>j \<in> set rest. j + 1 < length (names[i + 1 := x])" for x
    using Cons.prems by simp
  show ?case
    unfolding second_pass_step [OF a] Cons.IH [OF b c]
    by (simp split: sum.splits)
qed

lemma fold_update_length:
  "length (fold (\<lambda>(i, r) nm. nm[i + 1 := nm ! (i + 1) @ unit_suffix r]) zs names) = length names"
  by (induction zs arbitrary: names) (auto split: prod.splits)

lemma fold_update_other:
  "j \<notin> (\<lambda>i. i + 1) ` set (map fst zs) \<Longrightarrow>
     fold (\<lambda>(i, r) nm. nm[i + 1 := nm ! (i + 1) @ unit_suffix r]) zs names ! j = names ! j"
  by (induction zs arbitrary: names) (auto split: prod.splits)

lemma fold_update_nth:
  assumes "distinct (map fst zs)" and "\<forall>i \<in> set (map fst zs). i + 1 < length names" and "k < length zs"
  shows "fold (\<lambda>(i, r) nm. nm[i + 1 := nm ! (i + 1) @ unit_suffix r]) zs names ! (fst (zs ! k) + 1)
           = names ! (fst (zs ! k) + 1) @ unit_suffix (snd (zs ! k))"
  using assms
proof (induction zs arbitrary: names k)
  case Nil
  then show ?case by simp
next
  case (Cons z zs)
  obtain i r where z: "z = (i, r)" by (cases z)
  show ?case
  proof (cases k)
    case 0
    have "i + 1 \<notin> (\<lambda>i. i + 1) ` set (map fst zs)"
      using Cons.prems(1) z by auto
    then have "fold (\<lambda>(i, r) nm. nm[i + 1 := nm ! (i + 1) @ unit_suffix r]) zs
                 (names[i + 1 := names ! (i + 1) @ unit_suffix r]) ! (i + 1)
               = (names[i + 1 := names ! (i + 1) @ unit_suffix r]) ! (i + 1)"
      by (rule fold_update_other)
    then show ?thesis
      using 0 z Cons.prems(2) by simp
  next
    case (Suc k')
    have k': "k' < length zs" using Cons.prems(3) Suc by simp
    have d: "distinct (map fst zs)" using Cons.prems(1) by simp
    have l: "\<forall>j \<in> set (map fst zs). j + 1 < length (names[i + 1 := names ! (i + 1) @ unit_suffix r])"
      using Cons.prems(2) by simp
    have "zs ! k' \<in> set zs" using k' by simp
    then have "fst (zs ! k') \<in> fst ` set zs" by (rule imageI)
    then have ne: "fst (zs ! k') \<noteq> i"
      using Cons.prems(1) z by auto
    from Cons.IH [OF d l k'] show ?thesis
      using Suc z ne by simp
  qed
qed

lemma extract_column_names_closed:
  "extract_column_names d n pv =
     (case resolve_slots d pv 0x138 n of
        Inl e \<Rightarrow> Inl e
      | Inr ps \<Rightarrow>
          (case resolve_slots d pv (0x138 + 4 * n) n of
             Inl e \<Rightarrow> Inl e
           | Inr us \<Rightarrow>
               Inr (lit ''Num'' # map (\<lambda>c. primary_header c (ps ! c) @ unit_suffix (us ! c)) [0 ..< n])))"
proof (cases "resolve_slots d pv 0x138 n")
  case (Inl e)
  then show ?thesis by (simp add: extract_column_names_def first_pass_closed)
next
  case ps: (Inr ps)
  have lps: "length ps = n" using ps by (rule resolve_slots_length)
  let ?names1 = "[lit ''Num''] @ map2 primary_header [0 ..< n] ps"
  have len1: "length ?names1 = n + 1" using lps by simp
  have fp: "first_pass d pv [0 ..< n] ([lit ''Num''], 0x138) = Inr (?names1, 0x138 + 4 * n)"
    using ps by (simp add: first_pass_closed)
  show ?thesis
  proof (cases "resolve_slots d pv (0x138 + 4 * n) n")
    case (Inl e)
    have "second_pass d pv [0 ..< n] (?names1, 0x138 + 4 * n) = Inl e"
      using Inl len1 by (subst second_pass_closed) auto
    then show ?thesis
      using ps Inl fp by (simp add: extract_column_names_def)
  next
    case us: (Inr us)
    have lus: "length us = n" using us by (rule resolve_slots_length)
    let ?f = "\<lambda>(i, r) nm. nm[i + 1 := nm ! (i + 1) @ unit_suffix r]"
    let ?names2 = "fold ?f (zip [0 ..< n] us) ?names1"
    have sp: "second_pass d pv [0 ..< n] (?names1, 0x138 + 4 * n) = Inr (?names2, 0x138 + 4 * n + 4 * n)"
      using us len1 by (subst second_pass_closed) auto
    have fstzip: "map fst (zip [0 ..< n] us) = [0 ..< n]"
      using lus by simp
    have len2: "length ?names2 = n + 1"
      using len1 by (simp only: fold_update_length)
    have n0: "?names2 ! 0 = lit ''Num''"
    proof -
      have "0 \<notin> (\<lambda>i. i + 1) ` set (map fst (zip [0 ..< n] us))" by simp
      then have "?names2 ! 0 = ?names1 ! 0" by (rule fold_update_other)
      then show ?thesis by simp
    qed
    have nc: "?names2 ! (c + 1) = primary_header c (ps ! c) @ unit_suffix (us ! c)" if "c < n" for c
    proof -
      have k: "c < length (zip [0 ..< n] us)" using that lus by simp
      have d: "distinct (map fst (zip [0 ..< n] us))" unfolding fstzip by simp
      have l: "\<forall>i \<in> set (map fst (zip [0 ..< n] us)). i + 1 < length ?names1"
        unfolding fstzip using lps by simp
      have z: "zip [0 ..< n] us ! c = (c, us ! c)" using that lus by simp
      have "?names2 ! (fst (zip [0 ..< n] us ! c) + 1)
              = ?names1 ! (fst (zip [0 ..< n] us ! c) + 1) @ unit_suffix (snd (zip [0 ..< n] us ! c))"
        using d l k by (rule fold_update_nth)
      then show ?thesis
        using that lps by (simp add: z nth_append)
    qed
    have "?names2 = lit ''Num'' # map (\<lambda>c. primary_header c (ps ! c) @ unit_suffix (us ! c)) [0 ..< n]"
    proof (rule nth_equalityI)
      show "length ?names2 = length (lit ''Num'' # map (\<lambda>c. primary_header c (ps ! c) @ unit_suffix (us ! c)) [0 ..< n])"
        using len2 by simp
    next
      fix j assume "j < length ?names2"
      then have j: "j < n + 1" using len2 by simp
      show "?names2 ! j = (lit ''Num'' # map (\<lambda>c. primary_header c (ps ! c) @ unit_suffix (us ! c)) [0 ..< n]) ! j"
      proof (cases j)
        case 0
        then show ?thesis using n0 by simp
      next
        case (Suc c)
        then have "c < n" using j by simp
        from nc [OF this] show ?thesis using Suc \<open>c < n\<close> by simp
      qed
    qed
    then show ?thesis
      using ps us fp sp by (simp add: extract_column_names_def)
  qed
qed

section \<open>Properties of the clean header resolver\<close>

lemma resolve_slot_invalid:
  assumes "read_uint16 d off = Inr index" and "index = 0 \<or> 9 + length pv \<le> index"
  shows "resolve_slot d pv off = Inr None"
proof -
  from assms(2) have "\<not> (index \<noteq> 0 \<and> int index - 9 < int (length pv))" by linarith
  with assms(1) show ?thesis by (auto simp add: resolve_slot_def)
qed

lemma resolve_slot_valid:
  assumes "read_uint16 d off = Inr index" and "9 \<le> index" and "index < 9 + length pv"
  shows "resolve_slot d pv off = Inr (Some (pv ! (index - 9)))"
proof -
  have g: "index \<noteq> 0 \<and> int index - 9 < int (length pv)" using assms(2,3) by linarith
  have e: "int index - 9 = int (index - 9)" using assms(2) by linarith
  have "py_getitem pv (int index - 9) = Inr (pv ! (index - 9))"
    unfolding e using assms(2,3) by (intro getitem_in_range) linarith
  with assms(1) g show ?thesis by (auto simp add: resolve_slot_def simp del: of_nat_diff)
qed

lemma resolve_slot_read:
  "resolve_slot d pv off = Inr r \<Longrightarrow> \<exists>index. read_uint16 d off = Inr index"
  by (auto simp add: resolve_slot_def split: sum.splits)

lemma clean_reads:
  "clean_read_uint8 = read_uint8" "clean_read_uint16 = read_uint16" "clean_read_uint32 = read_uint32"
  by (auto simp add: fun_eq_iff clean_read_uint8_def read_uint8_def clean_read_uint16_def
        read_uint16_def clean_read_uint32_def read_uint32_def)

lemma clean_param_names_step:
  "clean_param_names d pv (i # rest) (names, off) =
     (case resolve_slot d pv off of
        Inl e \<Rightarrow> Inl e
      | Inr r \<Rightarrow> clean_param_names d pv rest (names @ [clean_param i r], off + 4))"
  by (simp add: resolve_slot_def clean_param_def clean_reads split: sum.splits)

lemma clean_param_names_closed:
  "clean_param_names d pv ixs (names, off) =
     (case resolve_slots d pv off (length ixs) of
        Inl e \<Rightarrow> Inl e
      | Inr rs \<Rightarrow> Inr (names @ map2 clean_param ixs rs, off + 4 * length ixs))"
proof (induction ixs arbitrary: names off)
  case Nil
  show ?case by simp
next
  case (Cons i rest)
  show ?case
    unfolding clean_param_names_step Cons.IH
    by (simp split: sum.splits)
qed

lemma clean_units_step:
  "clean_units d pv (i # rest) (units, off) =
     (case resolve_slot d pv off of
        Inl e \<Rightarrow> Inl e
      | Inr r \<Rightarrow> clean_units d pv rest (units @ [clean_unit r], off + 4))"
  by (simp add: resolve_slot_def clean_unit_def clean_reads split: sum.splits)

lemma clean_units_closed:
  "clean_units d pv ixs (units, off) =
     (case resolve_slots d pv off (length ixs) of
        Inl e \<Rightarrow> Inl e
      | Inr rs \<Rightarrow> Inr (units @ map clean_unit rs, off + 4 * length ixs))"
proof (induction ixs arbitrary: units off)
  case Nil
  show ?case by simp
next
  case (Cons i rest)
  show ?case
    unfolding clean_units_step Cons.IH
    by (simp split: sum.splits)
qed

lemma clean_extract_column_names_closed:
  "clean_extract_column_names d n pv =
     (case resolve_slots d pv 0x138 n of
        Inl e \<Rightarrow> Inl e
      | Inr ps \<Rightarrow>
          (case resolve_slots d pv (0x138 + 4 * n) n of
             Inl e \<Rightarrow> Inl e
           | Inr us \<Rightarrow>
               Inr (lit ''Row'' # map (\<lambda>c. clean_col_name (clean_param c (ps ! c), clean_unit (us ! c))) [0 ..< n])))"
proof (cases "resolve_slots d pv 0x138 n")
  case (Inl e)
  then show ?thesis by (simp add: clean_extract_column_names_def clean_param_names_closed)
next
  case ps: (Inr ps)
  have lps: "length ps = n" using ps by (rule resolve_slots_length)
  show ?thesis
  proof (cases "resolve_slots d pv (0x138 + 4 * n) n")
    case (Inl e)
    then show ?thesis
      using ps by (simp add: clean_extract_column_names_def clean_param_names_closed clean_units_closed)
  next
    case us: (Inr us)
    have lus: "length us = n" using us by (rule resolve_slots_length)
    have "map clean_col_name (zip (map2 clean_param [0 ..< n] ps) (map clean_unit us))
            = map (\<lambda>c. clean_col_name (clean_param c (ps ! c), clean_unit (us ! c))) [0 ..< n]"
      using lps lus by (intro nth_equalityI) simp_all
    then show ?thesis
      using ps us by (simp add: clean_extract_column_names_def clean_param_names_closed clean_units_closed)
  qed
qed

section \<open>Headers of files whose slots are regular\<close>

lemma resolve_slot_regular:
  assumes "regular_slot d off"
  shows "resolve_slot d pv off
           = Inr (if in_table pv (le_uint16 d off) then Some (pv ! (le_uint16 d off - 9)) else None)"
proof -
  have r: "read_uint16 d off = Inr (le_uint16 d off)"
    using assms by (simp add: regular_slot_def read_uint16_def)
  show ?thesis
  proof (cases "in_table pv (le_uint16 d off)")
    case True
    then show ?thesis
      using resolve_slot_valid [OF r, of pv] by (simp add: in_table_def)
  next
    case False
    then have "le_uint16 d off = 0 \<or> 9 + length pv \<le> le_uint16 d off"
      using assms by (auto simp add: in_table_def regular_slot_def)
    from resolve_slot_invalid [OF r this] False show ?thesis by simp
  qed
qed

lemma resolve_slots_regular:
  assumes "\<forall>j < k. regular_slot d (off + 4 * j)"
  shows "resolve_slots d pv off k
           = Inr (map (\<lambda>j. if in_table pv (le_uint16 d (off + 4 * j))
                            then Some (pv ! (le_uint16 d (off + 4 * j) - 9)) else None) [0 ..< k])"
  using assms
proof (induction k arbitrary: off)
  case 0
  show ?case by simp
next
  case (Suc k)
  have first: "regular_slot d off" using Suc.prems by force
  have rest: "\<forall>j < k. regular_slot d (off + 4 + 4 * j)"
  proof (intro allI impI)
    fix j assume "j < k"
    then have "regular_slot d (off + 4 * Suc j)" using Suc.prems by blast
    then show "regular_slot d (off + 4 + 4 * j)" by (simp add: add.assoc)
  qed
  have shift: "map (\<lambda>j. if in_table pv (le_uint16 d (off + 4 * j))
                         then Some (pv ! (le_uint16 d (off + 4 * j) - 9)) else None) [0 ..< Suc k]
               = (if in_table pv (le_uint16 d off) then Some (pv ! (le_uint16 d off - 9)) else None)
                 # map (\<lambda>j. if in_table pv (le_uint16 d (off + 4 + 4 * j))
                         then Some (pv ! (le_uint16 d (off + 4 + 4 * j) - 9)) else None) [0 ..< k]"
    by (simp only: map_upt_Suc) (simp add: add.assoc)
  show ?case
    unfolding shift resolve_slots.simps resolve_slot_regular [OF first] Suc.IH [OF rest]
    by simp
qed

lemma extract_column_names_regular:
  assumes "\<forall>c < n. regular_slot d (0x138 + 4 * c) \<and> regular_slot d (0x138 + 4 * n + 4 * c)"
  shows "extract_column_names d n pv
           = Inr (lit ''Num''
                  # map (\<lambda>c. verbose_name pv c (le_uint16 d (0x138 + 4 * c))
                                                 (le_uint16 d (0x138 + 4 * n + 4 * c))) [0 ..< n])"
proof -
  have a: "\<forall>j < n. regular_slot d (0x138 + 4 * j)" using assms by blast
  have b: "\<forall>j < n. regular_slot d (0x138 + 4 * n + 4 * j)" using assms by blast
  show ?thesis
    unfolding extract_column_names_closed resolve_slots_regular [OF a] resolve_slots_regular [OF b]
    by (simp add: verbose_name_def primary_header_def unit_suffix_def)
qed

lemma clean_extract_column_names_regular:
  assumes "\<forall>c < n. regular_slot d (0x138 + 4 * c) \<and> regular_slot d (0x138 + 4 * n + 4 * c)"
  shows "clean_extract_column_names d n pv
           = Inr (lit ''Row''
                  # map (\<lambda>c. clean_name pv c (le_uint16 d (0x138 + 4 * c))
                                               (le_uint16 d (0x138 + 4 * n + 4 * c))) [0 ..< n])"
proof -
  have a: "\<forall>j < n. regular_slot d (0x138 + 4 * j)" using assms by blast
  have b: "\<forall>j < n. regular_slot d (0x138 + 4 * n + 4 * j)" using assms by blast
  show ?thesis
    unfolding clean_extract_column_names_closed resolve_slots_regular [OF a] resolve_slots_regular [OF b]
    by (simp add: clean_name_def clean_col_name_def clean_param_def clean_unit_def Let_def)
qed

section \<open>Properties of the name normalization\<close>

lemma strip_split:
  "dropWhile py_isspace s
     = py_strip s @ rev (takeWhile py_isspace (rev (dropWhile py_isspace s)))"
proof -
  let ?m = "dropWhile py_isspace s"
  have "rev (takeWhile py_isspace (rev ?m) @ dropWhile py_isspace (rev ?m))
          = rev (dropWhile py_isspace (rev ?m)) @ rev (takeWhile py_isspace (rev ?m))"
    by (rule rev_append)
  moreover have "takeWhile py_isspace (rev ?m) @ dropWhile py_isspace (rev ?m) = rev ?m"
    by (rule takeWhile_dropWhile_id)
  ultimately have "rev (rev ?m)
          = rev (dropWhile py_isspace (rev ?m)) @ rev (takeWhile py_isspace (rev ?m))"
    by (simp only:)
  then show ?thesis by (simp only: rev_rev_ident py_strip_def)
qed

lemma py_strip_parts:
  "\<exists>a b. s = a @ py_strip s @ b \<and> (\<forall>c \<in> set a. py_isspace c) \<and> (\<forall>c \<in> set b. py_isspace c)"
proof -
  let ?m = "dropWhile py_isspace s"
  let ?a = "takeWhile py_isspace s"
  let ?b = "rev (takeWhile py_isspace (rev ?m))"
  have "s = ?a @ ?m" by simp
  also have "?m = py_strip s @ ?b" by (rule strip_split)
  finally have s: "s = ?a @ py_strip s @ ?b" .
  have a: "\<forall>c \<in> set ?a. py_isspace c" by (auto dest: set_takeWhileD)
  have b: "\<forall>c \<in> set ?b. py_isspace c" by (auto dest: set_takeWhileD)
  from s a b show ?thesis by blast
qed

lemma py_strip_ends:
  assumes "py_strip s \<noteq> []"
  shows "\<not> py_isspace (hd (py_strip s)) \<and> \<not> py_isspace (last (py_strip s))"
proof -
  let ?m = "dropWhile py_isspace s"
  let ?t = "dropWhile py_isspace (rev ?m)"
  have t: "?t \<noteq> []" using assms unfolding py_strip_def rev_is_Nil_conv by assumption
  then have l: "\<not> py_isspace (hd ?t)" by (rule hd_dropWhile)
  have "last (py_strip s) = hd ?t" using t by (simp add: py_strip_def last_rev)
  with l have last: "\<not> py_isspace (last (py_strip s))" by simp
  have m: "?m \<noteq> []"
  proof
    assume e: "?m = []"
    have "?t = []" unfolding e by simp
    with t show False by simp
  qed
  then have hm: "\<not> py_isspace (hd ?m)" by (rule hd_dropWhile)
  have "hd ?m = hd (py_strip s @ rev (takeWhile py_isspace (rev ?m)))"
    using strip_split [of s] by simp
  then have "hd ?m = hd (py_strip s)" using assms by simp
  with hm last show ?thesis by simp
qed

lemma py_replace_absent:
  assumes "old \<noteq> []" and "\<not> sublist old s"
  shows "py_replace old new s = s"
  using assms(2)
proof (induction s)
  case Nil
  show ?case using assms(1) by simp
next
  case (Cons c cs)
  have np: "\<not> prefix old (c # cs)"
    using Cons.prems prefix_imp_sublist by blast
  have "\<not> sublist old cs"
    using Cons.prems by (auto simp: sublist_Cons_right)
  with Cons.IH have "py_replace old new cs = cs" by simp
  with np assms(1) show ?case by simp
qed

lemma py_replace_first:
  assumes "old \<noteq> []" and "\<not> sublist old (a @ butlast old)"
  shows "py_replace old new (a @ old @ b) = a @ new @ py_replace old new b"
  using assms(2)
proof (induction a)
  case Nil
  obtain x xs where old: "old = x # xs" using assms(1) by (cases old) auto
  have "prefix old (old @ b)" by simp
  then show ?case by (simp add: old)
next
  case (Cons c cs)
  have np: "\<not> prefix old (c # cs @ old @ b)"
  proof
    assume p: "prefix old (c # cs @ old @ b)"
    have "c # cs @ old @ b = ((c # cs) @ butlast old) @ ([last old] @ b)"
      using assms(1) by simp
    moreover have "length old \<le> length ((c # cs) @ butlast old)" by simp
    ultimately have "prefix old ((c # cs) @ butlast old)"
      using p by (metis prefix_length_prefix prefixI)
    then have "sublist old ((c # cs) @ butlast old)" by (rule prefix_imp_sublist)
    with Cons.prems show False by simp
  qed
  have "\<not> sublist old (cs @ butlast old)"
    using Cons.prems by (auto simp: sublist_Cons_right)
  with Cons.IH have "py_replace old new (cs @ old @ b) = cs @ new @ py_replace old new b" by simp
  with np assms(1) show ?case by simp
qed

lemma clean_parameter_name_unfold:
  "clean_parameter_name name =
     (if name = [] then lit ''Unknown''
      else py_replace (lit ''#'') (lit ''Count'')
             (py_replace (lit ''Cat OT MF F/C'') (lit ''Catalyst Misfire'')
               (py_replace (lit ''A/C'') (lit ''AC'')
                 (py_replace (lit ''A/F'') (lit ''Air/Fuel'')
                   (py_replace (lit ''B2S1'') (lit ''(Bank2 Sensor1)'')
                     (py_replace (lit ''B1S1'') (lit ''(Bank1 Sensor1)'') (py_strip name)))))))"
  by (simp add: clean_parameter_name_def replacements_def)

section \<open>The clean parser's decoders are the verbose parser's\<close>

lemma clean_skip_sections_eq: "clean_skip_sections d k off = skip_sections d k off"
  by (induction k arbitrary: off) (simp_all add: clean_reads split: sum.splits)

lemma clean_point_values_loop_eq: "clean_point_values_loop d off acc = point_values_loop d off acc"
proof (induction d off acc rule: point_values_loop.induct)
  case (1 d off acc)
  show ?case
  proof (cases "off < length d \<and> \<not> off + 2 > length d")
    case False
    then show ?thesis
      by (subst clean_point_values_loop.simps, subst point_values_loop.simps) auto
  next
    case True
    then have r: "read_uint16 d off = Inr (le_uint16 d off)" by (simp add: read_uint16_def)
    show ?thesis
    proof (cases "le_uint16 d off < 3 \<or> (off + 2) + le_uint16 d off - 2 > length d")
      case stop: True
      then show ?thesis
        using True r
        by (subst clean_point_values_loop.simps, subst point_values_loop.simps)
           (simp add: clean_reads)
    next
      case go: False
      show ?thesis
        using True r go "1.IH" [of "le_uint16 d off"]
        by (subst clean_point_values_loop.simps, subst point_values_loop.simps)
           (simp add: clean_reads)
    qed
  qed
qed

lemma clean_row_cells_eq: "clean_row_cells d pv k st = row_cells d pv k st"
proof (induction k arbitrary: st)
  case 0
  show ?case by simp
next
  case (Suc k)
  obtain row off where st: "st = (row, off)" by (cases st)
  show ?case
    unfolding st by (simp add: clean_reads Suc.IH Let_def split: sum.splits)
qed

lemma clean_rows_loop_eq: "clean_rows_loop d pv n rs st = rows_loop d pv n rs st"
proof (induction rs arbitrary: st)
  case Nil
  show ?case by simp
next
  case (Cons r rs)
  obtain rows off where st: "st = (rows, off)" by (cases st)
  show ?case
    unfolding st by (simp add: clean_row_cells_eq Cons.IH split: sum.splits)
qed

lemma clean_loops:
  "clean_skip_sections = skip_sections" "clean_point_values_loop = point_values_loop"
  "clean_row_cells = row_cells" "clean_rows_loop = rows_loop"
  by (simp_all add: fun_eq_iff clean_skip_sections_eq clean_point_values_loop_eq
        clean_row_cells_eq clean_rows_loop_eq del: split_paired_All)

lemma clean_extract_point_values_eq: "clean_extract_point_values d = extract_point_values d"
  unfolding clean_extract_point_values_def extract_point_values_def clean_reads clean_loops
  by (rule refl)

lemma clean_extract_data_rows_eq: "clean_extract_data_rows d n pv = extract_data_rows d n pv"
  unfolding clean_extract_data_rows_def extract_data_rows_def clean_reads clean_loops
  by (rule refl)

lemma clean_extract_channel_count_eq: "clean_extract_channel_count d = extract_channel_count d"
  by (simp add: clean_extract_channel_count_def extract_channel_count_def clean_reads)

section \<open>The string table builder meets the specification's wording\<close>

lemma spec_skip_section_simps:
  "spec_skip_section d (Inl e) = Inl e"
  "spec_skip_section d (Inr off) =
     (case read_uint16 d off of Inl e \<Rightarrow> Inl e | Inr len \<Rightarrow> Inr (off + len))"
  by (simp_all add: spec_skip_section_def)

lemma spec_skip_section_error: "(spec_skip_section d ^^ k) (Inl e) = Inl e"
  by (induction k) (simp_all add: spec_skip_section_simps)

lemma skip_sections_funpow:
  "(spec_skip_section d ^^ k) (Inr off) = skip_sections d k off"
proof (induction k arbitrary: off)
  case 0
  show ?case by simp
next
  case (Suc k)
  have unroll: "(spec_skip_section d ^^ Suc k) (Inr off)
                  = (spec_skip_section d ^^ k) (spec_skip_section d (Inr off))"
    by (simp only: funpow_Suc_right o_apply)
  show ?case
  proof (cases "read_uint16 d off")
    case (Inl e)
    then show ?thesis
      unfolding unroll by (simp add: spec_skip_section_simps spec_skip_section_error)
  next
    case (Inr len)
    then show ?thesis
      unfolding unroll by (simp add: spec_skip_section_simps Suc.IH)
  qed
qed

lemma drop_two:
  assumes "off + 2 \<le> length d"
  shows "drop off d = d ! off # d ! (off + 1) # drop (off + 2) d"
proof -
  have "drop off d = d ! off # drop (Suc off) d"
    using assms by (intro Cons_nth_drop_Suc [symmetric]) simp
  also have "drop (Suc off) d = d ! Suc off # drop (Suc (Suc off)) d"
    using assms by (intro Cons_nth_drop_Suc [symmetric]) simp
  finally show ?thesis by simp
qed

lemma drop_short:
  assumes "length d < off + 2"
  shows "spec_payloads (drop off d) = []"
proof (cases "drop off d")
  case Nil
  then show ?thesis by simp
next
  case (Cons x xs)
  have "length (drop off d) \<le> 1" using assms by simp
  with Cons have "xs = []" by simp
  with Cons show ?thesis by simp
qed

lemma point_values_loop_spec:
  "point_values_loop d off acc = Inr (acc @ map spec_text (spec_payloads (drop off d)))"
proof (induction d off acc rule: point_values_loop.induct)
  case (1 d off acc)
  show ?case
  proof (cases "off + 2 \<le> length d")
    case False
    then have "point_values_loop d off acc = Inr acc"
      by (subst point_values_loop.simps) auto
    moreover have "spec_payloads (drop off d) = []"
      using False by (intro drop_short) simp
    ultimately show ?thesis by simp
  next
    case True
    let ?L = "le_uint16 d off"
    have r: "read_uint16 d off = Inr ?L" using True by (simp add: read_uint16_def)
    have lt: "off < length d" using True by simp
    have body: "length (drop (off + 2) d) = length d - (off + 2)" by simp
    have sp: "spec_payloads (drop off d) =
                (if ?L < 3 \<or> length d - (off + 2) < ?L - 2 then []
                 else take (?L - 3) (drop (off + 2) d)
                      # spec_payloads (drop (?L - 2) (drop (off + 2) d)))"
      unfolding drop_two [OF True] by (simp add: le_uint16_def Let_def)
    show ?thesis
    proof (cases "?L < 3 \<or> (off + 2) + ?L - 2 > length d")
      case stop: True
      then have "point_values_loop d off acc = Inr acc"
        using lt True r by (subst point_values_loop.simps) auto
      moreover have "?L < 3 \<or> length d - (off + 2) < ?L - 2"
        using stop True by linarith
      ultimately show ?thesis by (simp add: sp)
    next
      case go: False
      then have ngo: "\<not> (?L < 3 \<or> length d - (off + 2) < ?L - 2)"
        using True by linarith
      have step: "point_values_loop d off acc
                    = point_values_loop d ((off + 2) + (?L - 2))
                        (acc @ [spec_text (take (?L - 3) (drop (off + 2) d))])"
        using lt True r go by (subst point_values_loop.simps) (auto simp add: spec_text_def)
      have ih: "point_values_loop d ((off + 2) + (?L - 2))
                  (acc @ [spec_text (take (?L - 3) (drop (off + 2) d))])
                = Inr ((acc @ [spec_text (take (?L - 3) (drop (off + 2) d))])
                       @ map spec_text (spec_payloads (drop ((off + 2) + (?L - 2)) d)))"
        using "1.IH" [of ?L] lt True r go by (simp add: spec_text_def)
      have dd: "drop (?L - 2) (drop (off + 2) d) = drop ((off + 2) + (?L - 2)) d"
        by (simp add: add.commute)
      show ?thesis
        unfolding step ih sp dd using ngo by simp
    qed
  qed
qed

lemma extract_point_values_spec: "extract_point_values d = spec_point_values d"
  unfolding extract_point_values_def spec_point_values_def skip_sections_funpow
  by (simp add: point_values_loop_spec add.assoc cong: sum.case_cong)

section \<open>Properties of the text decoder\<close>

lemma kept_subseq:
  "subseq (concat (map (\<lambda>it. case it of None \<Rightarrow> [] | Some c \<Rightarrow> [c]) its))
          (map (\<lambda>it. case it of None \<Rightarrow> 0xFFFD | Some c \<Rightarrow> c) its)"
  by (induction its) (auto split: option.splits)

lemma kept_length:
  "length (concat (map (\<lambda>it. case it of None \<Rightarrow> [] | Some c \<Rightarrow> [c]) its)) \<le> length its"
  by (induction its) (auto split: option.splits)

lemma kept_shorter:
  "None \<in> set its \<Longrightarrow>
     length (concat (map (\<lambda>it. case it of None \<Rightarrow> [] | Some (c::nat) \<Rightarrow> [c]) its)) < length its"
proof (induction its)
  case Nil
  then show ?case by simp
next
  case (Cons it its)
  show ?case
  proof (cases it)
    case None
    then show ?thesis using kept_length [of its] by simp
  next
    case (Some c)
    with Cons show ?thesis by simp
  qed
qed

lemma kept_all:
  "None \<notin> set its \<Longrightarrow>
     concat (map (\<lambda>it. case it of None \<Rightarrow> [] | Some c \<Rightarrow> [c]) its) = map the its"
proof (induction its)
  case Nil
  show ?case by simp
next
  case (Cons it its)
  then obtain c where "it = Some c" by (cases it) auto
  with Cons show ?case by simp
qed

lemma decode_ignore_subseq:
  assumes "decode_utf8 Ignore bs = Inr s" and "decode_utf8 Replace bs = Inr r"
  shows "subseq s r"
  using assms kept_subseq [of "utf8_items (map unat bs)"]
  by (simp add: decode_utf8_def Let_def)

lemma decode_ignore_shorter:
  assumes "decode_utf8 Strict bs = Inl e"
    and "decode_utf8 Ignore bs = Inr s" and "decode_utf8 Replace bs = Inr r"
  shows "length s < length r"
proof -
  from assms(1) have "None \<in> set (utf8_items (map unat bs))"
    by (simp add: decode_utf8_def Let_def split: if_splits)
  from kept_shorter [OF this] assms(2,3) show ?thesis
    by (auto simp add: decode_utf8_def Let_def)
qed

lemma decode_ignore_strict:
  assumes "decode_utf8 Strict bs = Inr t" and "decode_utf8 Ignore bs = Inr s"
  shows "s = t"
proof -
  from assms(1) have "None \<notin> set (utf8_items (map unat bs))"
    by (simp add: decode_utf8_def Let_def split: if_splits)
  from kept_all [OF this] assms show ?thesis
    by (auto simp add: decode_utf8_def Let_def split: if_splits)
qed

lemma point_values_loop_step:
  assumes "off + 2 \<le> length d" and "read_uint16 d off = Inr L" and "3 \<le> L"
    and "off + L \<le> length d"
  shows "point_values_loop d off acc
           = point_values_loop d (off + L)
               (acc @ [case decode_utf8 Ignore (take (L - 3) (drop (off + 2) d)) of
                         Inl e \<Rightarrow> [] | Inr v \<Rightarrow> v])"
proof -
  have "off + 2 + (L - 2) = off + L" using assms(3) by simp
  then show ?thesis
    using assms by (subst point_values_loop.simps) auto
qed

section \<open>Decoding after a well-formed prefix\<close>

lemma utf8_next_complete:
  assumes "utf8_next xs = (Some c, n)"
  shows "1 \<le> n \<and> n \<le> length xs \<and> utf8_next (xs @ ys) = (Some c, n)"
proof (cases xs)
  case Nil
  with assms show ?thesis by simp
next
  case (Cons ch rest)
  show ?thesis
    using assms unfolding Cons
    by (auto split: if_splits list.splits)
qed

lemma utf8_items_append:
  assumes "None \<notin> set (utf8_items xs)"
  shows "utf8_items (xs @ ys) = utf8_items xs @ utf8_items ys"
  using assms
proof (induction xs rule: utf8_items.induct)
  case 1
  show ?case by simp
next
  case (2 b bs)
  obtain r n where rn: "utf8_next (b # bs) = (r, n)" by (cases "utf8_next (b # bs)")
  from "2.prems" rn obtain c where r: "r = Some c" by (cases r) auto
  from utf8_next_complete [OF rn [unfolded r], of ys]
  have n1: "1 \<le> n" and n2: "n \<le> length (b # bs)"
    and nx: "utf8_next ((b # bs) @ ys) = (Some c, n)" by simp_all
  have rest: "None \<notin> set (utf8_items (drop (n - 1) bs))"
    using "2.prems" rn by simp
  have ih: "utf8_items (drop (n - 1) bs @ ys) = utf8_items (drop (n - 1) bs) @ utf8_items ys"
    using "2.IH" [OF rn [symmetric] rest] .
  have d: "drop (n - 1) (bs @ ys) = drop (n - 1) bs @ ys"
    using n1 n2 by simp
  have "utf8_items ((b # bs) @ ys) = Some c # utf8_items (drop (n - 1) (bs @ ys))"
    using nx by simp
  also have "\<dots> = Some c # utf8_items (drop (n - 1) bs) @ utf8_items ys"
    by (simp only: d ih)
  also have "\<dots> = utf8_items (b # bs) @ utf8_items ys"
    using rn r by simp
  finally show ?case .
qed

lemma kept_filter:
  "concat (map (\<lambda>it. case it of None \<Rightarrow> [] | Some c \<Rightarrow> [c]) its)
     = map the (filter (\<lambda>it. it \<noteq> None) its)"
  by (induction its) (auto split: option.splits)

lemma decode_strict_items:
  assumes "decode_utf8 Strict a = Inr ta"
  shows "None \<notin> set (utf8_items (map unat a))" and "ta = map the (utf8_items (map unat a))"
  using assms by (simp_all add: decode_utf8_def Let_def split: if_splits)

lemma map_Some_the: "None \<notin> set its \<Longrightarrow> map Some (map the its) = its"
  by (induction its) auto

lemma decode_ignore_items:
  "decode_utf8 Ignore bs
     = Inr (concat (map (\<lambda>it. case it of None \<Rightarrow> [] | Some c \<Rightarrow> [c]) (utf8_items (map unat bs))))"
  by (simp add: decode_utf8_def Let_def)

lemma decode_replace_items:
  "decode_utf8 Replace bs
     = Inr (map (\<lambda>it. case it of None \<Rightarrow> 0xFFFD | Some c \<Rightarrow> c) (utf8_items (map unat bs)))"
  by (simp add: decode_utf8_def Let_def)

lemma utf8_items_malformed:
  assumes "m \<noteq> []" and "utf8_next (m @ b) = (None, length m)"
  shows "utf8_items (m @ b) = None # utf8_items b"
proof -
  obtain x xs where m: "m = x # xs" using assms(1) by (cases m) auto
  show ?thesis using assms(2) unfolding m by simp
qed

lemma utf8_items_decomposed:
  assumes "decode_utf8 Strict a = Inr ta" and "m \<noteq> []"
    and "utf8_next (map unat (m @ b)) = (None, length m)"
  shows "utf8_items (map unat (a @ m @ b))
           = map Some ta @ None # utf8_items (map unat b)"
proof -
  have v: "None \<notin> set (utf8_items (map unat a))" using assms(1) by (rule decode_strict_items)
  have t: "ta = map the (utf8_items (map unat a))" using assms(1) by (rule decode_strict_items)
  have s: "map Some ta = utf8_items (map unat a)"
    unfolding t using v by (rule map_Some_the)
  have "utf8_next (map unat m @ map unat b) = (None, length (map unat m))"
    using assms(3) by simp
  with assms(2) have mal: "utf8_items (map unat m @ map unat b) = None # utf8_items (map unat b)"
    by (intro utf8_items_malformed) simp_all
  have "utf8_items (map unat (a @ m @ b)) = utf8_items (map unat a @ (map unat m @ map unat b))"
    by simp
  also have "\<dots> = utf8_items (map unat a) @ utf8_items (map unat m @ map unat b)"
    using v by (rule utf8_items_append)
  finally show ?thesis by (simp only: mal s)
qed

lemma decode_decomposed:
  assumes "decode_utf8 Strict a = Inr ta" and "m \<noteq> []"
    and "utf8_next (map unat (m @ b)) = (None, length m)"
    and "decode_utf8 Ignore b = Inr sb" and "decode_utf8 Replace b = Inr rb"
  shows "decode_utf8 Ignore (a @ m @ b) = Inr (ta @ sb)"
    and "decode_utf8 Replace (a @ m @ b) = Inr (ta @ 0xFFFD # rb)"
proof -
  have k: "concat (map (\<lambda>it. case it of None \<Rightarrow> [] | Some c \<Rightarrow> [c]) (map Some ta)) = ta"
    by (induction ta) auto
  have r: "map (\<lambda>it. case it of None \<Rightarrow> 0xFFFD | Some c \<Rightarrow> c) (map Some ta) = ta"
    by (induction ta) auto
  show "decode_utf8 Ignore (a @ m @ b) = Inr (ta @ sb)"
    using assms(4) k
    unfolding decode_ignore_items utf8_items_decomposed [OF assms(1,2,3)]
    by simp
  show "decode_utf8 Replace (a @ m @ b) = Inr (ta @ 0xFFFD # rb)"
    using assms(5) r
    unfolding decode_replace_items utf8_items_decomposed [OF assms(1,2,3)]
    by simp
qed

lemma point_values_loop_total: "\<exists>tbl. point_values_loop d off acc = Inr tbl"
  by (simp add: point_values_loop_spec)

lemma point_values_loop_acc:
  "point_values_loop d off acc = Inr tbl \<Longrightarrow> point_values_loop d off [] = Inr rest
     \<Longrightarrow> tbl = acc @ rest"
  by (simp add: point_values_loop_spec)

section \<open>The concrete files, evaluated\<close>

lemma demo_length: "length demo_file = 349"
  by code_simp

lemma demo_pointer: "read_uint16 demo_file 0x11c = Inr 320"
  by code_simp

lemma demo_record_count: "read_uint32 demo_file (320 + 8) = Inr 18"
  by code_simp

lemma demo_column_names:
  "extract_column_names demo_file 2 demo_table
     = Inr [lit ''Num'', lit ''1. Speed (km/h)'', lit ''2. RPM (rpm)'']"
  by code_simp

lemma demo_clean_column_names:
  "clean_extract_column_names demo_file 2 demo_table
     = Inr [lit ''Row'', lit ''Speed [km/h]'', lit ''RPM [rpm]'']"
  by code_simp

lemma demo_data_rows:
  "extract_data_rows demo_file 2 demo_table
     = Inr [[lit ''1'', lit ''Speed'', lit ''RPM''], [lit ''2'', lit ''km/h'', lit ''0'']]"
  by code_simp

lemma demo_parse:
  "parse demo_file
     = Inr ([lit ''Num'', lit ''1. Speed (km/h)'', lit ''2. RPM (rpm)''],
            [[lit ''1'', lit ''Speed'', lit ''RPM''], [lit ''2'', lit ''km/h'', lit ''0'']])"
  by code_simp


section \<open>Data record decoder: the claims\<close>

lemma extract_data_rows_reads:
  assumes "extract_data_rows d n pv = Inr rows"
  shows "\<exists>v rc. read_uint16 d 0x11c = Inr v \<and> read_uint32 d (v + 8) = Inr rc \<and> 0 < n"
  using assms by (auto simp add: extract_data_rows_def split: sum.splits if_splits)

lemma decoded_row_length: "length (decoded_row d pv n off i r) = n + 1"
  by (simp add: decoded_row_def)

lemma decoded_row_exhausted:
  assumes "length d < off + 4 * (i * n) + 2"
  shows "decoded_row d pv n off i r = py_str (r + 1) # replicate n (lit ''0'')"
proof -
  have "cell d pv (off + 4 * (i * n + j)) = lit ''0''" for j
    using assms by (intro cell_exhausted) simp
  then have "map (\<lambda>j. cell d pv (off + 4 * (i * n + j))) [0 ..< n] = replicate n (lit ''0'')"
    by (simp add: map_replicate_const)
  then show ?thesis by (simp add: decoded_row_def)
qed

text \<open>
  C2, as amended. The record count is the 32-bit value at the data-section pointer
  itself, that is at \<open>v + 8\<close> for the 16-bit value \<open>v\<close> stored at 0x11c, and not 8 bytes
  past that pointer; the cell indices are decoded from \<open>v + 8 + 8\<close> on, 8 bytes past the
  start of the record-count field, one every 4 bytes.
\<close>

theorem C2_record_count_at_pointer:
  assumes "read_uint16 d 0x11c = Inr v"
  shows "extract_data_rows d n pv =
           (case read_uint32 d (v + 8) of
              Inl e \<Rightarrow> Inl e
            | Inr rc \<Rightarrow>
                if n = 0 then Inl ZeroDivisionError
                else Inr (map (\<lambda>r. py_str (r + 1)
                                     # map (\<lambda>j. cell d pv (v + 8 + 8 + 4 * (r * n + j))) [0 ..< n])
                              [0 ..< (rc div 4) div n]))"
proof (cases "read_uint32 d (v + 8)")
  case (Inl e)
  with assms show ?thesis by (simp add: extract_data_rows_def)
next
  case (Inr rc)
  show ?thesis
  proof (cases "n = 0")
    case True
    with assms Inr show ?thesis by (simp add: extract_data_rows_def)
  next
    case False
    then have "0 < n" by simp
    from extract_data_rows_closed [OF assms Inr this] Inr False show ?thesis
      by (simp add: decoded_row_def add.assoc)
  qed
qed

theorem C2_record_count_at_pointer_witness:
  "read_uint16 demo_file 0x11c = Inr 320 \<and>
   extract_data_rows demo_file 2 demo_table =
     (case read_uint32 demo_file (320 + 8) of
        Inl e \<Rightarrow> Inl e
      | Inr rc \<Rightarrow>
          if (2::nat) = 0 then Inl ZeroDivisionError
          else Inr (map (\<lambda>r. py_str (r + 1)
                               # map (\<lambda>j. cell demo_file demo_table (320 + 8 + 8 + 4 * (r * 2 + j))) [0 ..< 2])
                        [0 ..< (rc div 4) div 2]))"
  by (rule conjI [OF demo_pointer C2_record_count_at_pointer [OF demo_pointer]])

text \<open>
  C2, as stated, fails: on the demonstration file the decoder returns two rows, while
  reading the record count 8 bytes past the pointer, as the claim has it, would give a
  single, different row.
\<close>

theorem C2_counterexample:
  "extract_data_rows demo_file 2 demo_table
     = Inr [[lit ''1'', lit ''Speed'', lit ''RPM''], [lit ''2'', lit ''km/h'', lit ''0'']]
   \<and> spec_extract_data_rows demo_file 2 demo_table = Inr [[lit ''1'', lit ''km/h'', lit ''0'']]"
  by code_simp

text \<open>
  C7. For a channel count of at least 1, once the pointer and the record count can be
  read, the decoder returns without error exactly
  \<open>(record_count div 4) div channel_count\<close> rows, each of them complete: a partial
  trailing row is dropped silently.
\<close>

theorem C7_row_count:
  assumes "1 \<le> n" and "read_uint16 d 0x11c = Inr v" and "read_uint32 d (v + 8) = Inr rc"
  shows "\<exists>rows. extract_data_rows d n pv = Inr rows
                \<and> length rows = (rc div 4) div n
                \<and> (\<forall>row \<in> set rows. length row = n + 1)"
proof -
  from assms(1) have "0 < n" by simp
  from extract_data_rows_closed [OF assms(2,3) this]
  show ?thesis by (auto simp add: decoded_row_length)
qed

theorem C7_row_count_witness:
  "1 \<le> (2::nat) \<and> read_uint16 demo_file 0x11c = Inr 320
   \<and> read_uint32 demo_file (320 + 8) = Inr 18
   \<and> (\<exists>rows. extract_data_rows demo_file 2 demo_table = Inr rows
               \<and> length rows = (18 div 4) div 2
               \<and> (\<forall>row \<in> set rows. length row = 2 + 1))"
proof -
  have h: "1 \<le> (2::nat)" by simp
  from h demo_pointer demo_record_count
    C7_row_count [OF h demo_pointer demo_record_count, of demo_table]
  show ?thesis by (intro conjI)
qed

text \<open>
  C9. If the buffer is exhausted when cell \<open>j\<close> of row \<open>r\<close> is due (fewer than two bytes
  remain at its offset), the decoder still returns all the rows; row \<open>r\<close> is complete,
  its cells from \<open>j\<close> on are \<open>"0"\<close>, and every later row is emitted as its ordinal
  followed by \<open>"0"\<close> cells.
\<close>

theorem C9_exhausted_buffer:
  assumes "1 \<le> n" and "read_uint16 d 0x11c = Inr v" and "read_uint32 d (v + 8) = Inr rc"
    and "r < (rc div 4) div n" and "j < n"
    and "length d < (v + 16 + 4 * (r * n + j)) + 2"
  shows "\<exists>rows. extract_data_rows d n pv = Inr rows
                \<and> length rows = (rc div 4) div n
                \<and> length (rows ! r) = n + 1
                \<and> (\<forall>j'. j \<le> j' \<and> j' < n \<longrightarrow> rows ! r ! (j' + 1) = lit ''0'')
                \<and> (\<forall>r'. r < r' \<and> r' < (rc div 4) div n
                         \<longrightarrow> rows ! r' = py_str (r' + 1) # replicate n (lit ''0''))"
proof -
  let ?rows = "map (\<lambda>r. decoded_row d pv n (v + 16) r r) [0 ..< (rc div 4) div n]"
  from assms(1) have "0 < n" by simp
  from extract_data_rows_closed [OF assms(2,3) this]
  have rows: "extract_data_rows d n pv = Inr ?rows" .
  have len: "length ?rows = (rc div 4) div n" by simp
  have row: "?rows ! r = decoded_row d pv n (v + 16) r r"
    using assms(4) by simp
  have cells: "?rows ! r ! (j' + 1) = lit ''0''" if "j \<le> j'" and "j' < n" for j'
  proof -
    have "length d < (v + 16 + 4 * (r * n + j')) + 2"
      using assms(6) that(1) by simp
    then have "cell d pv (v + 16 + 4 * (r * n + j')) = lit ''0''"
      by (rule cell_exhausted)
    moreover have "decoded_row d pv n (v + 16) r r ! (j' + 1) = cell d pv (v + 16 + 4 * (r * n + j'))"
      using that(2) by (simp add: decoded_row_def)
    ultimately show ?thesis
      by (simp only: row)
  qed
  have later: "?rows ! r' = py_str (r' + 1) # replicate n (lit ''0'')"
    if "r < r'" and "r' < (rc div 4) div n" for r'
  proof -
    from that(1) have "Suc r \<le> r'" by simp
    then have "Suc r * n \<le> r' * n" by (rule mult_le_mono1)
    then have "r * n + j \<le> r' * n" using assms(5) by simp
    then have "length d < v + 16 + 4 * (r' * n) + 2"
      using assms(6) by simp
    then have "decoded_row d pv n (v + 16) r' r' = py_str (r' + 1) # replicate n (lit ''0'')"
      by (rule decoded_row_exhausted)
    then show ?thesis using that(2) by simp
  qed
  have "length (?rows ! r) = n + 1"
    unfolding row by (rule decoded_row_length)
  with rows len cells later show ?thesis by blast
qed

theorem C9_exhausted_buffer_witness:
  "1 \<le> (2::nat) \<and> read_uint16 demo_file 0x11c = Inr 320
   \<and> read_uint32 demo_file (320 + 8) = Inr 18
   \<and> (1::nat) < (18 div 4) div 2 \<and> (1::nat) < 2
   \<and> length demo_file < (320 + 16 + 4 * (1 * 2 + 1)) + 2
   \<and> (\<exists>rows. extract_data_rows demo_file 2 demo_table = Inr rows
               \<and> length rows = (18 div 4) div 2
               \<and> length (rows ! 1) = 2 + 1
               \<and> (\<forall>j'. 1 \<le> j' \<and> j' < 2 \<longrightarrow> rows ! 1 ! (j' + 1) = lit ''0'')
               \<and> (\<forall>r'. 1 < r' \<and> r' < (18 div 4) div 2
                        \<longrightarrow> rows ! r' = py_str (r' + 1) # replicate 2 (lit ''0'')))"
proof -
  have h1: "1 \<le> (2::nat)" by simp
  have h4: "(1::nat) < (18 div 4) div 2" by simp
  have h5: "(1::nat) < 2" by simp
  have h6: "length demo_file < (320 + 16 + 4 * (1 * 2 + 1)) + 2"
    by (simp add: demo_length)
  from h1 demo_pointer demo_record_count h4 h5 h6
    C9_exhausted_buffer [OF h1 demo_pointer demo_record_count h4 h5 h6, of demo_table]
  show ?thesis by (intro conjI)
qed


section \<open>String table builder: the claims\<close>

text \<open>
  C3, as amended. For every string-table entry (a length \<open>L \<ge> 3\<close> whose \<open>L - 2\<close> bytes lie
  in the buffer) the builder decodes the \<open>L - 3\<close> payload bytes with the \<open>ignore\<close> error
  handler and appends the result \<open>s\<close> to the table: the table is the one built so far,
  then \<open>s\<close>, then the table built from the next entry on. Decoding never fails. The
  string \<open>s\<close> holds, in order, the code point of every well-formed sequence of the
  payload and nothing for a malformed stretch, where the \<open>replace\<close> decoding \<open>r\<close> has
  U+FFFD. So a valid payload decodes to its text; and whenever the payload is a valid
  part \<open>a\<close>, a malformed stretch \<open>m\<close> and a remainder \<open>b\<close>, \<open>s\<close> is the text of \<open>a\<close> followed by
  the \<open>ignore\<close> decoding of \<open>b\<close>, while \<open>r\<close> has U+FFFD between the two. No replacement
  character is substituted.
\<close>

theorem C3_invalid_bytes_dropped:
  assumes "off + 2 \<le> length d" and "read_uint16 d off = Inr L" and "3 \<le> L"
    and "off + L \<le> length d"
  shows "\<exists>s r rest.
            decode_utf8 Ignore (take (L - 3) (drop (off + 2) d)) = Inr s
          \<and> decode_utf8 Replace (take (L - 3) (drop (off + 2) d)) = Inr r
          \<and> point_values_loop d (off + L) [] = Inr rest
          \<and> point_values_loop d off acc = Inr (acc @ s # rest)
          \<and> s = map the (filter (\<lambda>it. it \<noteq> None)
                            (utf8_items (map unat (take (L - 3) (drop (off + 2) d)))))
          \<and> r = map (\<lambda>it. case it of None \<Rightarrow> 0xFFFD | Some c \<Rightarrow> c)
                    (utf8_items (map unat (take (L - 3) (drop (off + 2) d))))
          \<and> subseq s r
          \<and> (\<forall>e. decode_utf8 Strict (take (L - 3) (drop (off + 2) d)) = Inl e
                   \<longrightarrow> length s < length r)
          \<and> (\<forall>t. decode_utf8 Strict (take (L - 3) (drop (off + 2) d)) = Inr t \<longrightarrow> s = t)
          \<and> (\<forall>a m b ta sb rb.
                  take (L - 3) (drop (off + 2) d) = a @ m @ b
                \<and> decode_utf8 Strict a = Inr ta
                \<and> m \<noteq> [] \<and> utf8_next (map unat (m @ b)) = (None, length m)
                \<and> decode_utf8 Ignore b = Inr sb \<and> decode_utf8 Replace b = Inr rb
                \<longrightarrow> s = ta @ sb \<and> r = ta @ 0xFFFD # rb)"
proof -
  let ?payload = "take (L - 3) (drop (off + 2) d)"
  let ?its = "utf8_items (map unat ?payload)"
  define s where "s = map the (filter (\<lambda>it. it \<noteq> None) ?its)"
  define r where "r = map (\<lambda>it. case it of None \<Rightarrow> 0xFFFD | Some c \<Rightarrow> c) ?its"
  have s: "decode_utf8 Ignore ?payload = Inr s"
    unfolding s_def decode_ignore_items kept_filter by (rule refl)
  have r: "decode_utf8 Replace ?payload = Inr r"
    unfolding r_def decode_replace_items by (rule refl)
  obtain rest where rest: "point_values_loop d (off + L) [] = Inr rest"
    using point_values_loop_total by blast
  obtain tbl where tbl: "point_values_loop d (off + L) (acc @ [s]) = Inr tbl"
    using point_values_loop_total by blast
  from point_values_loop_acc [OF tbl rest] have "tbl = (acc @ [s]) @ rest" .
  with tbl have "point_values_loop d (off + L) (acc @ [s]) = Inr (acc @ s # rest)" by simp
  moreover have "point_values_loop d off acc = point_values_loop d (off + L) (acc @ [s])"
    using point_values_loop_step [OF assms, of acc] s by simp
  ultimately have loop: "point_values_loop d off acc = Inr (acc @ s # rest)" by simp
  have a: "subseq s r" using s r by (rule decode_ignore_subseq)
  have b: "length s < length r" if "decode_utf8 Strict ?payload = Inl e" for e
    using that s r by (rule decode_ignore_shorter)
  have c: "s = t" if "decode_utf8 Strict ?payload = Inr t" for t
    using that s by (rule decode_ignore_strict)
  have e: "s = ta @ sb \<and> r = ta @ 0xFFFD # rb"
    if "?payload = a @ m @ b \<and> decode_utf8 Strict a = Inr ta
        \<and> m \<noteq> [] \<and> utf8_next (map unat (m @ b)) = (None, length m)
        \<and> decode_utf8 Ignore b = Inr sb \<and> decode_utf8 Replace b = Inr rb"
    for a m b ta sb rb
  proof -
    from that have p: "?payload = a @ m @ b" and h1: "decode_utf8 Strict a = Inr ta"
      and h2: "m \<noteq> []" and h3: "utf8_next (map unat (m @ b)) = (None, length m)"
      and h4: "decode_utf8 Ignore b = Inr sb" and h5: "decode_utf8 Replace b = Inr rb"
      by simp_all
    from decode_decomposed [OF h1 h2 h3 h4 h5] s r show ?thesis
      unfolding p by simp
  qed
  from s r rest loop s_def r_def a b c e show ?thesis by blast
qed

theorem C3_invalid_bytes_dropped_witness:
  "32 + 2 \<le> length (one_channel_file (entry [0x41, 0xFF, 0x42]) 9 0)
   \<and> read_uint16 (one_channel_file (entry [0x41, 0xFF, 0x42]) 9 0) 32 = Inr 6
   \<and> (3::nat) \<le> 6
   \<and> 32 + 6 \<le> length (one_channel_file (entry [0x41, 0xFF, 0x42]) 9 0)
   \<and> take (6 - 3) (drop (32 + 2) (one_channel_file (entry [0x41, 0xFF, 0x42]) 9 0))
       = [0x41, 0xFF, 0x42]
   \<and> (\<exists>s r rest.
          decode_utf8 Ignore [0x41, 0xFF, 0x42] = Inr s
        \<and> decode_utf8 Replace [0x41, 0xFF, 0x42] = Inr r
        \<and> point_values_loop (one_channel_file (entry [0x41, 0xFF, 0x42]) 9 0) 32 []
            = Inr ([] @ s # rest)
        \<and> s = [0x41] @ [0x42] \<and> r = [0x41] @ 0xFFFD # [0x42])"
proof -
  let ?F = "one_channel_file (entry [0x41, 0xFF, 0x42]) 9 0"
  have h1: "32 + 2 \<le> length ?F" by code_simp
  have h2: "read_uint16 ?F 32 = Inr 6" by code_simp
  have h3: "(3::nat) \<le> 6" by simp
  have h4: "32 + 6 \<le> length ?F" by code_simp
  have p: "take (6 - 3) (drop (32 + 2) ?F) = [0x41, 0xFF, 0x42]" by code_simp
  have q: "[0x41, 0xFF, 0x42] = [0x41] @ [0xFF] @ [0x42 :: byte]" by simp
  have a: "decode_utf8 Strict [0x41] = Inr [0x41]" by (simp add: decode_utf8_def)
  have m: "[0xFF :: byte] \<noteq> []" by simp
  have n: "utf8_next (map unat ([0xFF] @ [0x42 :: byte])) = (None, length [0xFF :: byte])" by simp
  have i: "decode_utf8 Ignore [0x42] = Inr [0x42]" by (simp add: decode_utf8_def)
  have e: "decode_utf8 Replace [0x42] = Inr [0x42]" by (simp add: decode_utf8_def)
  from C3_invalid_bytes_dropped [OF h1 h2 h3 h4, of "[]"] obtain s r rest where
    1: "decode_utf8 Ignore (take (6 - 3) (drop (32 + 2) ?F)) = Inr s"
    and 2: "decode_utf8 Replace (take (6 - 3) (drop (32 + 2) ?F)) = Inr r"
    and 3: "point_values_loop ?F 32 [] = Inr ([] @ s # rest)"
    and 4: "\<forall>a m b ta sb rb.
                  take (6 - 3) (drop (32 + 2) ?F) = a @ m @ b
                \<and> decode_utf8 Strict a = Inr ta
                \<and> m \<noteq> [] \<and> utf8_next (map unat (m @ b)) = (None, length m)
                \<and> decode_utf8 Ignore b = Inr sb \<and> decode_utf8 Replace b = Inr rb
                \<longrightarrow> s = ta @ sb \<and> r = ta @ 0xFFFD # rb"
    by blast
  from 4 p q a m n i e have 5: "s = [0x41] @ [0x42] \<and> r = [0x41] @ 0xFFFD # [0x42]"
    by metis
  from 1 2 have "decode_utf8 Ignore [0x41, 0xFF, 0x42] = Inr s"
    and "decode_utf8 Replace [0x41, 0xFF, 0x42] = Inr r"
    unfolding p by simp_all
  with h1 h2 h3 h4 p 3 5 show ?thesis by blast
qed

text \<open>
  C3, as stated, fails: the payload \<open>41 FF 42\<close> is not valid UTF-8, substituting a
  replacement character would give \<open>A\<close>, U+FFFD, \<open>B\<close>, and the table built from a file
  with that entry holds the two-character string \<open>AB\<close>.
\<close>

theorem C3_counterexample:
  "decode_utf8 Strict [0x41, 0xFF, 0x42] = Inl UnicodeDecodeError
   \<and> decode_utf8 Replace [0x41, 0xFF, 0x42] = Inr [0x41, 0xFFFD, 0x42]
   \<and> extract_point_values (one_channel_file (entry [0x41, 0xFF, 0x42]) 9 0) = Inr [[0x41, 0x42]]"
proof -
  have a: "decode_utf8 Strict [0x41, 0xFF, 0x42] = Inl UnicodeDecodeError"
    by (simp add: decode_utf8_def)
  have b: "decode_utf8 Replace [0x41, 0xFF, 0x42] = Inr [0x41, 0xFFFD, 0x42]"
    by (simp add: decode_utf8_def)
  have c: "extract_point_values (one_channel_file (entry [0x41, 0xFF, 0x42]) 9 0) = Inr [[0x41, 0x42]]"
    by code_simp
  from a b c show ?thesis by (intro conjI)
qed

text \<open>
  C4. The table the builder returns is the one the specification describes: from offset
  0x0c a 32-bit length \<open>L0\<close> is read and \<open>4 + L0\<close> bytes are skipped, eight sections
  are skipped by their own 16-bit lengths, and the entries are then read until a length
  below 3, or one that does not fit the remaining bytes, or the end of the buffer, each
  of which ends the table without an error. Only a read of the preamble or of a section
  length outside the buffer fails.
\<close>

theorem C4_string_table:
  "extract_point_values d = spec_point_values d"
  by (rule extract_point_values_spec)


section \<open>Headers, parser and the two implementations: the claims\<close>

lemma resolved_slot:
  assumes "resolve_slot d pv off = Inr r"
  shows "\<exists>index. read_uint16 d off = Inr index
           \<and> (index = 0 \<or> 9 + length pv \<le> index \<longrightarrow> r = None)
           \<and> (9 \<le> index \<and> index < 9 + length pv \<longrightarrow> r = Some (pv ! (index - 9)))"
proof -
  from resolve_slot_read [OF assms] obtain index where i: "read_uint16 d off = Inr index" ..
  have "r = None" if "index = 0 \<or> 9 + length pv \<le> index"
    using resolve_slot_invalid [OF i that] assms by simp
  moreover have "r = Some (pv ! (index - 9))" if "9 \<le> index \<and> index < 9 + length pv"
    using resolve_slot_valid [OF i, of pv] that assms by simp
  ultimately show ?thesis using i by blast
qed

lemma column_slots:
  assumes "resolve_slots d pv 0x138 n = Inr ps" and "resolve_slots d pv (0x138 + 4 * n) n = Inr us"
    and "c < n"
  shows "\<exists>i1 i2. read_uint16 d (0x138 + 4 * c) = Inr i1
           \<and> read_uint16 d (0x138 + 4 * n + 4 * c) = Inr i2
           \<and> (i1 = 0 \<or> 9 + length pv \<le> i1 \<longrightarrow> ps ! c = None)
           \<and> (9 \<le> i1 \<and> i1 < 9 + length pv \<longrightarrow> ps ! c = Some (pv ! (i1 - 9)))
           \<and> (i2 = 0 \<or> 9 + length pv \<le> i2 \<longrightarrow> us ! c = None)
           \<and> (9 \<le> i2 \<and> i2 < 9 + length pv \<longrightarrow> us ! c = Some (pv ! (i2 - 9)))"
  using resolved_slot [OF resolve_slots_nth [OF assms(1,3)]]
        resolved_slot [OF resolve_slots_nth [OF assms(2,3)]]
  by blast

text \<open>
  C1 fails on the code. A stored header index between 1 and 8 passes the guard
  \<open>index != 0 and (index - 9) < len(point_values)\<close>, and the lookup that follows uses a
  negative position: with an empty table the parse raises \<open>IndexError\<close>, and with the
  one-entry table \<open>["Speed"]\<close> the header is \<open>"1. Speed"\<close>, not \<open>"1. Unknown"\<close>.
\<close>

theorem C1_header_index_below_bias:
  "parse (one_channel_file [] 8 0) = Inl IndexError
   \<and> parse (one_channel_file (entry (ascii ''Speed'')) 8 0) = Inr ([lit ''Num'', lit ''1. Speed''], [])"
  by code_simp

text \<open>
  C5, as amended. In a file whose header slots are regular (readable, each stored index
  0 or at least 9) the verbose resolver returns, and the header of every channel \<open>c\<close>
  (numbered from 1 in the text, from 0 here) is the channel number, \<open>". "\<close>, the primary
  and a suffix: the primary is the table entry at the stored index minus 9 when that
  position lies in the table and \<open>"Unknown"\<close> otherwise; the suffix is that entry of the
  unit index in parentheses when the position lies in the table, whatever the entry
  reads, and nothing otherwise. On the demonstration file, whose slots hold 9, 10, 11
  and 12, the headers are \<open>Num\<close>, \<open>1. Speed (km/h)\<close>, \<open>2. RPM (rpm)\<close>.
\<close>

theorem C5_verbose_headers:
  "(\<forall>d n pv.
      (\<forall>c < n. regular_slot d (0x138 + 4 * c) \<and> regular_slot d (0x138 + 4 * n + 4 * c)) \<longrightarrow>
      extract_column_names d n pv =
        Inr (lit ''Num''
             # map (\<lambda>c. let i1 = le_uint16 d (0x138 + 4 * c);
                             i2 = le_uint16 d (0x138 + 4 * n + 4 * c)
                         in py_str (c + 1) @ lit ''. ''
                            @ (if 9 \<le> i1 \<and> i1 < 9 + length pv then pv ! (i1 - 9)
                               else lit ''Unknown'')
                            @ (if 9 \<le> i2 \<and> i2 < 9 + length pv
                               then lit '' ('' @ pv ! (i2 - 9) @ lit '')'' else []))
                   [0 ..< n]))
   \<and> map (read_uint16 demo_file) [0x138, 0x13c, 0x140, 0x144] = [Inr 9, Inr 10, Inr 11, Inr 12]
   \<and> extract_column_names demo_file 2 [lit ''Speed'', lit ''RPM'', lit ''km/h'', lit ''rpm'']
       = Inr [lit ''Num'', lit ''1. Speed (km/h)'', lit ''2. RPM (rpm)'']"
proof (intro conjI allI impI)
  fix d n pv
  assume "\<forall>c < n. regular_slot d (0x138 + 4 * c) \<and> regular_slot d (0x138 + 4 * n + 4 * c)"
  then show "extract_column_names d n pv =
        Inr (lit ''Num''
             # map (\<lambda>c. let i1 = le_uint16 d (0x138 + 4 * c);
                             i2 = le_uint16 d (0x138 + 4 * n + 4 * c)
                         in py_str (c + 1) @ lit ''. ''
                            @ (if 9 \<le> i1 \<and> i1 < 9 + length pv then pv ! (i1 - 9)
                               else lit ''Unknown'')
                            @ (if 9 \<le> i2 \<and> i2 < 9 + length pv
                               then lit '' ('' @ pv ! (i2 - 9) @ lit '')'' else []))
                   [0 ..< n])"
    by (simp add: extract_column_names_regular verbose_name_def in_table_def Let_def)
next
  show "map (read_uint16 demo_file) [0x138, 0x13c, 0x140, 0x144] = [Inr 9, Inr 10, Inr 11, Inr 12]"
    by code_simp
next
  show "extract_column_names demo_file 2 [lit ''Speed'', lit ''RPM'', lit ''km/h'', lit ''rpm'']
          = Inr [lit ''Num'', lit ''1. Speed (km/h)'', lit ''2. RPM (rpm)'']"
    by code_simp
qed

theorem C5_verbose_headers_witness:
  "regular_slot demo_file 0x138 \<and> regular_slot demo_file 0x13c
   \<and> regular_slot demo_file 0x140 \<and> regular_slot demo_file 0x144
   \<and> extract_column_names demo_file 2 demo_table
       = Inr [lit ''Num'', lit ''1. Speed (km/h)'', lit ''2. RPM (rpm)'']"
proof -
  have r: "regular_slot demo_file 0x138" "regular_slot demo_file 0x13c"
    "regular_slot demo_file 0x140" "regular_slot demo_file 0x144"
    by code_simp+
  have h: "\<forall>c < 2. regular_slot demo_file (0x138 + 4 * c) \<and> regular_slot demo_file (0x138 + 4 * 2 + 4 * c)"
    using r by (simp add: less_2_cases_iff)
  have "(\<forall>c < 2. regular_slot demo_file (0x138 + 4 * c) \<and> regular_slot demo_file (0x138 + 4 * 2 + 4 * c))
        \<longrightarrow> extract_column_names demo_file 2 demo_table =
        Inr (lit ''Num''
             # map (\<lambda>c. let i1 = le_uint16 demo_file (0x138 + 4 * c);
                             i2 = le_uint16 demo_file (0x138 + 4 * 2 + 4 * c)
                         in py_str (c + 1) @ lit ''. ''
                            @ (if 9 \<le> i1 \<and> i1 < 9 + length demo_table then demo_table ! (i1 - 9)
                               else lit ''Unknown'')
                            @ (if 9 \<le> i2 \<and> i2 < 9 + length demo_table
                               then lit '' ('' @ demo_table ! (i2 - 9) @ lit '')'' else []))
                   [0 ..< 2])"
    by (rule C5_verbose_headers [THEN conjunct1, THEN spec, THEN spec, THEN spec])
  with h have eq: "extract_column_names demo_file 2 demo_table =
        Inr (lit ''Num''
             # map (\<lambda>c. let i1 = le_uint16 demo_file (0x138 + 4 * c);
                             i2 = le_uint16 demo_file (0x138 + 4 * 2 + 4 * c)
                         in py_str (c + 1) @ lit ''. ''
                            @ (if 9 \<le> i1 \<and> i1 < 9 + length demo_table then demo_table ! (i1 - 9)
                               else lit ''Unknown'')
                            @ (if 9 \<le> i2 \<and> i2 < 9 + length demo_table
                               then lit '' ('' @ demo_table ! (i2 - 9) @ lit '')'' else []))
                   [0 ..< 2])"
    by blast
  have ev: "Inr (lit ''Num''
             # map (\<lambda>c. let i1 = le_uint16 demo_file (0x138 + 4 * c);
                             i2 = le_uint16 demo_file (0x138 + 4 * 2 + 4 * c)
                         in py_str (c + 1) @ lit ''. ''
                            @ (if 9 \<le> i1 \<and> i1 < 9 + length demo_table then demo_table ! (i1 - 9)
                               else lit ''Unknown'')
                            @ (if 9 \<le> i2 \<and> i2 < 9 + length demo_table
                               then lit '' ('' @ demo_table ! (i2 - 9) @ lit '')'' else []))
                   [0 ..< 2])
            = (Inr [lit ''Num'', lit ''1. Speed (km/h)'', lit ''2. RPM (rpm)''] :: error + pystr list)"
    by code_simp
  from r eq [unfolded ev] show ?thesis by (intro conjI)
qed

text \<open>
  C5, as stated, fails. The unit is appended whenever its index lies in the table, also
  when the entry it resolves to reads \<open>"Unknown"\<close>: the header is then
  \<open>1. Speed (Unknown)\<close>. And a stored unit index of 8, which is below the bias and
  should resolve to nothing, is looked up at position -1 and appended as well: that is
  the defect recorded under C1.
\<close>

theorem C5_counterexample:
  "parse (one_channel_file (entry (ascii ''Speed'') @ entry (ascii ''Unknown'')) 9 10)
     = Inr ([lit ''Num'', lit ''1. Speed (Unknown)''], [])
   \<and> parse (one_channel_file (entry (ascii ''Speed'') @ entry (ascii ''km/h'')) 9 8)
       = Inr ([lit ''Num'', lit ''1. Speed (km/h)''], [])"
  by code_simp

text \<open>
  C6, as amended. In a file whose header slots are regular the clean resolver returns,
  and the header of every channel is built from the primary and the unit string, both
  normalized: it is \<open>"{primary} [{unit}]"\<close> exactly when the normalized unit is non-empty,
  differs from the normalized primary and is not \<open>"Unknown"\<close>, and the normalized primary
  alone otherwise. A stored index whose position (index minus 9) lies in the table
  resolves to the table entry; any other resolves to \<open>"Channel_{c}"\<close> (the channel number,
  from 1) for the primary and to the empty string for the unit. The normalization
  turns the empty string into \<open>"Unknown"\<close>; any other string is stripped of the white
  space at both ends and then has the six abbreviations replaced one after the other,
  every occurrence from left to right: a string without the abbreviation is left as it
  is, and the text up to and including its first occurrence becomes that text with the
  expansion in its place. So \<open>" O2 Sensor B1S1 "\<close> becomes \<open>"O2 Sensor (Bank1 Sensor1)"\<close>.
\<close>

theorem C6_clean_headers:
  "(\<forall>d n pv.
      (\<forall>c < n. regular_slot d (0x138 + 4 * c) \<and> regular_slot d (0x138 + 4 * n + 4 * c)) \<longrightarrow>
      clean_extract_column_names d n pv =
        Inr (lit ''Row''
             # map (\<lambda>c. let i1 = le_uint16 d (0x138 + 4 * c);
                             i2 = le_uint16 d (0x138 + 4 * n + 4 * c);
                             p = clean_parameter_name
                                   (if 9 \<le> i1 \<and> i1 < 9 + length pv then pv ! (i1 - 9)
                                    else lit ''Channel_'' @ py_str (c + 1));
                             u = clean_parameter_name
                                   (if 9 \<le> i2 \<and> i2 < 9 + length pv then pv ! (i2 - 9) else [])
                         in if u \<noteq> [] \<and> u \<noteq> p \<and> u \<noteq> lit ''Unknown''
                            then p @ lit '' ['' @ u @ lit '']'' else p)
                   [0 ..< n]))
   \<and> clean_parameter_name [] = lit ''Unknown''
   \<and> (\<forall>name. name \<noteq> [] \<longrightarrow>
         clean_parameter_name name =
           py_replace (lit ''#'') (lit ''Count'')
             (py_replace (lit ''Cat OT MF F/C'') (lit ''Catalyst Misfire'')
               (py_replace (lit ''A/C'') (lit ''AC'')
                 (py_replace (lit ''A/F'') (lit ''Air/Fuel'')
                   (py_replace (lit ''B2S1'') (lit ''(Bank2 Sensor1)'')
                     (py_replace (lit ''B1S1'') (lit ''(Bank1 Sensor1)'') (py_strip name)))))))
   \<and> (\<forall>s. \<exists>a b. s = a @ py_strip s @ b
              \<and> (\<forall>c \<in> set a. py_isspace c) \<and> (\<forall>c \<in> set b. py_isspace c)
              \<and> (py_strip s \<noteq> []
                   \<longrightarrow> \<not> py_isspace (hd (py_strip s)) \<and> \<not> py_isspace (last (py_strip s))))
   \<and> (\<forall>old new s. old \<noteq> [] \<and> \<not> sublist old s \<longrightarrow> py_replace old new s = s)
   \<and> (\<forall>old new a b. old \<noteq> [] \<and> \<not> sublist old (a @ butlast old)
          \<longrightarrow> py_replace old new (a @ old @ b) = a @ new @ py_replace old new b)
   \<and> clean_parameter_name (lit '' O2 Sensor B1S1 '') = lit ''O2 Sensor (Bank1 Sensor1)''"
proof (intro conjI allI impI)
  fix d n pv
  assume "\<forall>c < n. regular_slot d (0x138 + 4 * c) \<and> regular_slot d (0x138 + 4 * n + 4 * c)"
  then show "clean_extract_column_names d n pv =
        Inr (lit ''Row''
             # map (\<lambda>c. let i1 = le_uint16 d (0x138 + 4 * c);
                             i2 = le_uint16 d (0x138 + 4 * n + 4 * c);
                             p = clean_parameter_name
                                   (if 9 \<le> i1 \<and> i1 < 9 + length pv then pv ! (i1 - 9)
                                    else lit ''Channel_'' @ py_str (c + 1));
                             u = clean_parameter_name
                                   (if 9 \<le> i2 \<and> i2 < 9 + length pv then pv ! (i2 - 9) else [])
                         in if u \<noteq> [] \<and> u \<noteq> p \<and> u \<noteq> lit ''Unknown''
                            then p @ lit '' ['' @ u @ lit '']'' else p)
                   [0 ..< n])"
    by (simp add: clean_extract_column_names_regular clean_name_def in_table_def Let_def)
next
  show "clean_parameter_name [] = lit ''Unknown''"
    by (simp add: clean_parameter_name_def)
next
  fix name :: pystr
  assume "name \<noteq> []"
  then show "clean_parameter_name name =
           py_replace (lit ''#'') (lit ''Count'')
             (py_replace (lit ''Cat OT MF F/C'') (lit ''Catalyst Misfire'')
               (py_replace (lit ''A/C'') (lit ''AC'')
                 (py_replace (lit ''A/F'') (lit ''Air/Fuel'')
                   (py_replace (lit ''B2S1'') (lit ''(Bank2 Sensor1)'')
                     (py_replace (lit ''B1S1'') (lit ''(Bank1 Sensor1)'') (py_strip name))))))"
    by (simp only: clean_parameter_name_unfold if_False)
next
  fix s
  from py_strip_parts [of s] obtain a b where
    "s = a @ py_strip s @ b \<and> (\<forall>c \<in> set a. py_isspace c) \<and> (\<forall>c \<in> set b. py_isspace c)"
    by blast
  with py_strip_ends [of s]
  show "\<exists>a b. s = a @ py_strip s @ b
              \<and> (\<forall>c \<in> set a. py_isspace c) \<and> (\<forall>c \<in> set b. py_isspace c)
              \<and> (py_strip s \<noteq> []
                   \<longrightarrow> \<not> py_isspace (hd (py_strip s)) \<and> \<not> py_isspace (last (py_strip s)))"
    by blast
next
  fix old new s :: pystr
  assume "old \<noteq> [] \<and> \<not> sublist old s"
  then show "py_replace old new s = s" by (simp add: py_replace_absent)
next
  fix old new a b :: pystr
  assume "old \<noteq> [] \<and> \<not> sublist old (a @ butlast old)"
  then show "py_replace old new (a @ old @ b) = a @ new @ py_replace old new b"
    by (simp add: py_replace_first)
next
  show "clean_parameter_name (lit '' O2 Sensor B1S1 '') = lit ''O2 Sensor (Bank1 Sensor1)''"
    by code_simp
qed

theorem C6_clean_headers_witness:
  "regular_slot (one_channel_file (entry (ascii '' O2 Sensor B1S1 '')) 9 0) 0x138
   \<and> regular_slot (one_channel_file (entry (ascii '' O2 Sensor B1S1 '')) 9 0) 0x13c
   \<and> lit '' O2 Sensor B1S1 '' \<noteq> []
   \<and> clean_extract_column_names (one_channel_file (entry (ascii '' O2 Sensor B1S1 '')) 9 0) 1
        [lit '' O2 Sensor B1S1 '']
       = Inr [lit ''Row'', lit ''O2 Sensor (Bank1 Sensor1)'']
   \<and> clean_parameter_name (lit '' O2 Sensor B1S1 '')
       = py_replace (lit ''#'') (lit ''Count'')
           (py_replace (lit ''Cat OT MF F/C'') (lit ''Catalyst Misfire'')
             (py_replace (lit ''A/C'') (lit ''AC'')
               (py_replace (lit ''A/F'') (lit ''Air/Fuel'')
                 (py_replace (lit ''B2S1'') (lit ''(Bank2 Sensor1)'')
                   (py_replace (lit ''B1S1'') (lit ''(Bank1 Sensor1)'')
                     (py_strip (lit '' O2 Sensor B1S1 '')))))))"
proof -
  let ?F = "one_channel_file (entry (ascii '' O2 Sensor B1S1 '')) 9 0"
  let ?T = "[lit '' O2 Sensor B1S1 '']"
  have r: "regular_slot ?F 0x138" "regular_slot ?F 0x13c"
    by code_simp+
  have h: "\<forall>c < 1. regular_slot ?F (0x138 + 4 * c) \<and> regular_slot ?F (0x138 + 4 * 1 + 4 * c)"
    using r by simp
  have ne: "lit '' O2 Sensor B1S1 '' \<noteq> []" by (simp add: lit_def)
  have "(\<forall>c < 1. regular_slot ?F (0x138 + 4 * c) \<and> regular_slot ?F (0x138 + 4 * 1 + 4 * c))
        \<longrightarrow> clean_extract_column_names ?F 1 ?T =
        Inr (lit ''Row''
             # map (\<lambda>c. let i1 = le_uint16 ?F (0x138 + 4 * c);
                             i2 = le_uint16 ?F (0x138 + 4 * 1 + 4 * c);
                             p = clean_parameter_name
                                   (if 9 \<le> i1 \<and> i1 < 9 + length ?T then ?T ! (i1 - 9)
                                    else lit ''Channel_'' @ py_str (c + 1));
                             u = clean_parameter_name
                                   (if 9 \<le> i2 \<and> i2 < 9 + length ?T then ?T ! (i2 - 9) else [])
                         in if u \<noteq> [] \<and> u \<noteq> p \<and> u \<noteq> lit ''Unknown''
                            then p @ lit '' ['' @ u @ lit '']'' else p)
                   [0 ..< 1])"
    by (rule C6_clean_headers [THEN conjunct1, THEN spec, THEN spec, THEN spec])
  with h have eq: "clean_extract_column_names ?F 1 ?T =
        Inr (lit ''Row''
             # map (\<lambda>c. let i1 = le_uint16 ?F (0x138 + 4 * c);
                             i2 = le_uint16 ?F (0x138 + 4 * 1 + 4 * c);
                             p = clean_parameter_name
                                   (if 9 \<le> i1 \<and> i1 < 9 + length ?T then ?T ! (i1 - 9)
                                    else lit ''Channel_'' @ py_str (c + 1));
                             u = clean_parameter_name
                                   (if 9 \<le> i2 \<and> i2 < 9 + length ?T then ?T ! (i2 - 9) else [])
                         in if u \<noteq> [] \<and> u \<noteq> p \<and> u \<noteq> lit ''Unknown''
                            then p @ lit '' ['' @ u @ lit '']'' else p)
                   [0 ..< 1])"
    by blast
  have ev: "Inr (lit ''Row''
             # map (\<lambda>c. let i1 = le_uint16 ?F (0x138 + 4 * c);
                             i2 = le_uint16 ?F (0x138 + 4 * 1 + 4 * c);
                             p = clean_parameter_name
                                   (if 9 \<le> i1 \<and> i1 < 9 + length ?T then ?T ! (i1 - 9)
                                    else lit ''Channel_'' @ py_str (c + 1));
                             u = clean_parameter_name
                                   (if 9 \<le> i2 \<and> i2 < 9 + length ?T then ?T ! (i2 - 9) else [])
                         in if u \<noteq> [] \<and> u \<noteq> p \<and> u \<noteq> lit ''Unknown''
                            then p @ lit '' ['' @ u @ lit '']'' else p)
                   [0 ..< 1])
            = (Inr [lit ''Row'', lit ''O2 Sensor (Bank1 Sensor1)''] :: error + pystr list)"
    by code_simp
  have un: "clean_parameter_name (lit '' O2 Sensor B1S1 '')
       = py_replace (lit ''#'') (lit ''Count'')
           (py_replace (lit ''Cat OT MF F/C'') (lit ''Catalyst Misfire'')
             (py_replace (lit ''A/C'') (lit ''AC'')
               (py_replace (lit ''A/F'') (lit ''Air/Fuel'')
                 (py_replace (lit ''B2S1'') (lit ''(Bank2 Sensor1)'')
                   (py_replace (lit ''B1S1'') (lit ''(Bank1 Sensor1)'')
                     (py_strip (lit '' O2 Sensor B1S1 '')))))))"
    using C6_clean_headers ne by blast
  from r ne eq [unfolded ev] un show ?thesis by (intro conjI)
qed

text \<open>
  C6, as stated, fails in its last clause: with a stored primary index of 0 the clean
  header is \<open>"Channel_1"\<close>, not \<open>"Unknown"\<close>.
\<close>

theorem C6_counterexample:
  "read_uint16 (one_channel_file [] 0 0) 0x138 = Inr 0
   \<and> clean_parse (one_channel_file [] 0 0) = Inr ([lit ''Row'', lit ''Channel_1''], [])"
  by code_simp

text \<open>
  C8. Whenever the parse returns, the header sequence has \<open>channel_count + 1\<close> entries,
  the first being the synthetic \<open>Num\<close> column, and every data row has
  \<open>channel_count + 1\<close> cells, the first being its ordinal counted from 1.
\<close>

theorem C8_shape:
  assumes "parse d = Inr (headers, rows)"
  shows "\<exists>n. extract_channel_count d = Inr n
            \<and> length headers = n + 1
            \<and> headers ! 0 = lit ''Num''
            \<and> (\<forall>i < length rows. length (rows ! i) = n + 1 \<and> rows ! i ! 0 = py_str (i + 1))"
proof -
  from assms obtain n pv where n: "extract_channel_count d = Inr n"
    and h: "extract_column_names d n pv = Inr headers"
    and r: "extract_data_rows d n pv = Inr rows"
    by (auto simp add: parse_def split: sum.splits)
  from h have hd: "length headers = n + 1 \<and> headers ! 0 = lit ''Num''"
    by (auto simp add: extract_column_names_closed split: sum.splits)
  from extract_data_rows_reads [OF r] obtain v rc where
    v: "read_uint16 d 0x11c = Inr v" and rc: "read_uint32 d (v + 8) = Inr rc" and pos: "0 < n"
    by blast
  from extract_data_rows_closed [OF v rc pos, of pv] r
  have rows: "rows = map (\<lambda>r. decoded_row d pv n (v + 16) r r) [0 ..< (rc div 4) div n]"
    by simp
  have "length (rows ! i) = n + 1 \<and> rows ! i ! 0 = py_str (i + 1)" if "i < length rows" for i
    using that by (simp add: rows decoded_row_def)
  with n hd show ?thesis by blast
qed

theorem C8_shape_witness:
  "parse demo_file
     = Inr ([lit ''Num'', lit ''1. Speed (km/h)'', lit ''2. RPM (rpm)''],
            [[lit ''1'', lit ''Speed'', lit ''RPM''], [lit ''2'', lit ''km/h'', lit ''0'']])
   \<and> (\<exists>n. extract_channel_count demo_file = Inr n
          \<and> length [lit ''Num'', lit ''1. Speed (km/h)'', lit ''2. RPM (rpm)''] = n + 1
          \<and> [lit ''Num'', lit ''1. Speed (km/h)'', lit ''2. RPM (rpm)''] ! 0 = lit ''Num''
          \<and> (\<forall>i < length [[lit ''1'', lit ''Speed'', lit ''RPM''], [lit ''2'', lit ''km/h'', lit ''0'']].
                length ([[lit ''1'', lit ''Speed'', lit ''RPM''], [lit ''2'', lit ''km/h'', lit ''0'']] ! i) = n + 1
              \<and> [[lit ''1'', lit ''Speed'', lit ''RPM''], [lit ''2'', lit ''km/h'', lit ''0'']] ! i ! 0
                  = py_str (i + 1)))"
  by (rule conjI [OF demo_parse C8_shape [OF demo_parse]])

text \<open>
  C10. On every buffer the clean parser computes the channel count, the string table
  and the data rows exactly as the verbose parser does, and the two parses fail on the
  same buffers with the same error and otherwise return the same rows: only the
  headers differ.
\<close>

theorem C10_same_table_and_rows:
  "clean_extract_channel_count d = extract_channel_count d
   \<and> clean_extract_point_values d = extract_point_values d
   \<and> clean_extract_data_rows d n pv = extract_data_rows d n pv
   \<and> (case clean_parse d of Inl e \<Rightarrow> Inl e | Inr (headers, rows) \<Rightarrow> Inr rows)
       = (case parse d of Inl e \<Rightarrow> Inl e | Inr (headers, rows) \<Rightarrow> Inr rows)"
proof -
  have hdr: "(case clean_extract_column_names d k t of Inl e \<Rightarrow> Inl e | Inr names \<Rightarrow> f)
               = (case extract_column_names d k t of Inl e \<Rightarrow> Inl e | Inr names \<Rightarrow> f)"
    for k t and f :: "error + pystr list list"
    by (simp add: clean_extract_column_names_closed extract_column_names_closed split: sum.splits)
  have "(case clean_parse d of Inl e \<Rightarrow> Inl e | Inr (headers, rows) \<Rightarrow> Inr rows)
          = (case parse d of Inl e \<Rightarrow> Inl e | Inr (headers, rows) \<Rightarrow> Inr rows)"
  proof (cases "extract_channel_count d")
    case (Inl e)
    then show ?thesis
      by (simp add: clean_parse_def parse_def clean_extract_channel_count_eq)
  next
    case n: (Inr k)
    show ?thesis
    proof (cases "extract_point_values d")
      case (Inl e)
      with n show ?thesis
        by (simp add: clean_parse_def parse_def clean_extract_channel_count_eq
              clean_extract_point_values_eq)
    next
      case t: (Inr t)
      have "(case clean_extract_column_names d k t of
               Inl e \<Rightarrow> Inl e
             | Inr names \<Rightarrow> (case extract_data_rows d k t of Inl e \<Rightarrow> Inl e | Inr rows \<Rightarrow> Inr rows))
            = (case extract_column_names d k t of
                 Inl e \<Rightarrow> Inl e
               | Inr names \<Rightarrow> (case extract_data_rows d k t of Inl e \<Rightarrow> Inl e | Inr rows \<Rightarrow> Inr rows))"
        by (rule hdr)
      then show ?thesis
        using n t
        by (simp add: clean_parse_def parse_def clean_extract_channel_count_eq
              clean_extract_point_values_eq clean_extract_data_rows_eq split: sum.splits)
    qed
  qed
  then show ?thesis
    by (simp add: clean_extract_channel_count_eq clean_extract_point_values_eq
          clean_extract_data_rows_eq)
qed

end
